theory Spec2Isabelle
  imports Main "HOL-Library.AList"
begin

section \<open>The import index of the closure completion server\<close>

text \<open>
  This theory embeds the class \<open>ImportDB\<close> of \<open>server/src/server.ts\<close>: the forward map
  from namespaces to import records, the reverse map from file paths to the namespaces a
  file contributed, the line-by-line scanner with its blacklist and deprecated-skip policy,
  and the cached list of completion items.

  Conventions of the embedding.
  \<^item> A JavaScript string is a \<open>string\<close> (a list of 8-bit characters).
  \<^item> A JavaScript \<open>Map\<close> is an association list in insertion order: \<open>set\<close> on a fresh key
    appends, \<open>set\<close> on a present key replaces the value in place, \<open>delete\<close> drops the key.
  \<^item> Every method and every callback takes the state and returns the new one.
  \<^item> \<open>scanFile\<close> returns once it has removed the old entries of the path and opened a
    reader. The \<open>line\<close> and \<open>close\<close> callbacks of the reader run later, as events of
    their own, and the callers of \<open>scanFile\<close> do not wait for them: between two events
    of one reader, other calls and the events of other readers may run. The state of the
    server is the index together with the readers that are still open.
  \<^item> The logger calls and the snapshot written with \<open>writeFileSync\<close> do not read or write
    any of the four fields of the object; they are left out of the state.
\<close>

subsection \<open>String primitives\<close>

text \<open>\<open>s.startsWith(p)\<close>\<close>

definition startsWith :: "string \<Rightarrow> string \<Rightarrow> bool" where
  "startsWith s p = (take (length p) s = p)"

text \<open>\<open>s.indexOf(sub)\<close>: the position of the first occurrence, \<open>-1\<close> when there is none.\<close>

fun indexOf :: "string \<Rightarrow> string \<Rightarrow> int" where
  "indexOf [] sub = (if sub = [] then 0 else - 1)"
| "indexOf (c # cs) sub =
     (if startsWith (c # cs) sub then 0
      else (let r = indexOf cs sub in if r = - 1 then - 1 else r + 1))"

text \<open>\<open>s.lastIndexOf(ch)\<close> for a one-character needle.\<close>

fun lastIndexOf :: "string \<Rightarrow> char \<Rightarrow> int" where
  "lastIndexOf [] ch = - 1"
| "lastIndexOf (c # cs) ch =
     (let r = lastIndexOf cs ch
      in if r \<noteq> - 1 then r + 1 else if c = ch then 0 else - 1)"

text \<open>\<open>s.substr(start)\<close>: a negative start counts from the end of the string.\<close>

definition substr :: "string \<Rightarrow> int \<Rightarrow> string" where
  "substr s start =
     (if start < 0 then drop (nat (int (length s) + start)) s else drop (nat start) s)"

subsection \<open>The declaration pattern\<close>

text \<open>
  \<open>line.match(/declare module 'goog:(.+)'/)\<close>. The dot of a regular expression matches
  every character but a line terminator, and \<open>.+\<close> is greedy: at a given start position
  the capture runs up to the last quote that is reachable without crossing a terminator,
  and holds at least one character. The engine tries the start positions from left to
  right. The result is the first capture group, or \<open>None\<close> when there is no match.
  Of the line terminators of the language, line feed and carriage return are characters
  of the model; the two separators beyond the 8-bit range are not.
\<close>

definition lineTerminator :: "char \<Rightarrow> bool" where
  "lineTerminator c = (c = CHR 0x0A \<or> c = CHR 0x0D)"

fun uptoLastQuote :: "string \<Rightarrow> string option" where
  "uptoLastQuote [] = None"
| "uptoLastQuote (c # cs) =
     (case (if lineTerminator c then None else uptoLastQuote cs) of
        Some r \<Rightarrow> Some (c # r)
      | None \<Rightarrow> if c = CHR 0x27 then Some [] else None)"

definition matchAt :: "string \<Rightarrow> string option" where
  "matchAt s =
     (if startsWith s ''declare module 'goog:'' then
        (case drop (length ''declare module 'goog:'') s of
           [] \<Rightarrow> None
         | c # cs \<Rightarrow>
             if lineTerminator c then None else map_option ((#) c) (uptoLastQuote cs))
      else None)"

fun matchDeclare :: "string \<Rightarrow> string option" where
  "matchDeclare [] = matchAt []"
| "matchDeclare (c # cs) =
     (case matchAt (c # cs) of Some m \<Rightarrow> Some m | None \<Rightarrow> matchDeclare cs)"

subsection \<open>The filter tables\<close>

definition wildcardBlacklists :: "string list" where
  "wildcardBlacklists =
     [''goog.i18n.CompactNumberFormatSymbols'', ''goog.i18n.DateTimePatterns'',
      ''goog.i18n.DateTimeSymbols'', ''goog.i18n.NumberFormatSymbols'',
      ''goog.labs.i18n.ListFormat'']"

definition deprecated :: "string list" where
  "deprecated =
     [''goog.Delay'',
      ''goog.Throttle'',
      ''goog.dom.classes'',
      ''goog.fs.Error.ErrorCode'',
      ''goog.fx.Animation.EventType'',
      ''goog.fx.Animation.State'',
      ''goog.graphics'',
      ''goog.i18n.currencyCodeMapTier2'',
      ''goog.i18n.currencyCodeMap'',
      ''goog.json.EvalJsonProcessor'',
      ''goog.net.MockIFrameIo'',
      ''goog.result'',
      ''goog.structs.Map'',
      ''goog.structs.Set'',
      ''goog.testing.AsyncTestCase'',
      ''goog.testing.ContinuationTestCase'',
      ''goog.testing.DeferredTestCase'',
      ''goog.ui.AttachableMenu'',
      ''goog.ui.Button.Side'',
      ''goog.ui.ImagelessButtonRenderer'',
      ''goog.ui.ImagelessMenuButtonRenderer'',
      ''goog.ui.Menu.EventType'',
      ''goog.ui.MenuBase'',
      ''goog.ui.ServerChart'',
      ''goog.ui.TabPane'',
      ''goog.vec.ArrayType'',
      ''goog.History.EventType'',
      ''goog.History.Event'']"

text \<open>The loop over \<open>wildcardBlacklists\<close>: some prefix of the table starts the namespace.\<close>

definition blacklisted :: "string \<Rightarrow> bool" where
  "blacklisted ns = list_ex (\<lambda>prefix. startsWith ns prefix) wildcardBlacklists"

text \<open>\<open>deprecated.has(ns)\<close>\<close>

definition deprecated_has :: "string \<Rightarrow> bool" where
  "deprecated_has ns = (ns \<in> set deprecated)"

subsection \<open>Data\<close>

text \<open>
  Modelled from the spec: the interface \<open>ImportInfo\<close> of \<open>./importinfo\<close>, which is not
  among the sources. Its four fields are the ones \<open>scanFile\<close> writes and
  \<open>getCompletions\<close> reads.
\<close>

record ImportInfo =
  name :: string
  namespace :: string
  module :: bool
  sourcepath :: string

text \<open>The language-server protocol values that \<open>getCompletions\<close> builds.\<close>

record Position =
  line :: nat
  character :: nat

record Range =
  range_start :: Position
  range_end :: Position

record TextEdit =
  edit_range :: Range
  newText :: string

datatype CompletionItemKind = Class | Module

record CompletionItem =
  label :: string
  detail :: string
  kind :: CompletionItemKind
  additionalTextEdits :: "TextEdit list"
  commitCharacters :: "string list"

definition Position_create :: "nat \<Rightarrow> nat \<Rightarrow> Position" where
  "Position_create l c = \<lparr>line = l, character = c\<rparr>"

definition TextEdit_insert :: "Position \<Rightarrow> string \<Rightarrow> TextEdit" where
  "TextEdit_insert p txt = \<lparr>edit_range = \<lparr>range_start = p, range_end = p\<rparr>, newText = txt\<rparr>"

text \<open>The operations of a JavaScript \<open>Map\<close> that the class uses.\<close>

definition Map_has :: "('k \<times> 'v) list \<Rightarrow> 'k \<Rightarrow> bool" where
  "Map_has m k = (map_of m k \<noteq> None)"

definition Map_get :: "('k \<times> 'v) list \<Rightarrow> 'k \<Rightarrow> 'v option" where
  "Map_get m k = map_of m k"

definition Map_set :: "('k \<times> 'v) list \<Rightarrow> 'k \<Rightarrow> 'v \<Rightarrow> ('k \<times> 'v) list" where
  "Map_set m k v = AList.update k v m"

definition Map_delete :: "('k \<times> 'v) list \<Rightarrow> 'k \<Rightarrow> ('k \<times> 'v) list" where
  "Map_delete m k = AList.delete k m"

definition Map_values :: "('k \<times> 'v) list \<Rightarrow> 'v list" where
  "Map_values m = map snd m"

text \<open>The fields of \<open>ImportDB\<close>. An unset \<open>workspace\<close> or \<open>completions\<close> is \<open>None\<close>.\<close>

record ImportDB =
  "imports" :: "(string \<times> ImportInfo) list"
  files :: "(string \<times> string list) list"
  workspace :: "string option"
  completions :: "CompletionItem list option"

definition newImportDB :: ImportDB where
  "newImportDB = \<lparr>imports = [], files = [], workspace = None, completions = None\<rparr>"

subsection \<open>removeFile\<close>

definition removeFile :: "string \<Rightarrow> ImportDB \<Rightarrow> ImportDB" where
  "removeFile path db =
     (if Map_has (files db) path then
        (case Map_get (files db) path of
           None \<Rightarrow> db
         | Some ns \<Rightarrow>
             db\<lparr>imports := foldl Map_delete (imports db) ns,
                files := Map_delete (files db) path,
                completions := None\<rparr>)
      else db)"

subsection \<open>scanFile\<close>

text \<open>
  The variables that the two reader callbacks of one \<open>scanFile\<close> call share. The
  source calls the first two \<open>namespace\<close> and \<open>name\<close>, which are field names of
  \<open>ImportInfo\<close> here.
\<close>

record scan_vars =
  cur_namespace :: string
  cur_name :: string
  skip :: string
  found :: "string list"

definition scan_init :: scan_vars where
  "scan_init = \<lparr>cur_namespace = [], cur_name = [], skip = [], found = []\<rparr>"

text \<open>
  The first branch of the \<open>line\<close> callback, for a line that matches the declaration
  pattern with capture \<open>m\<close>. Each \<open>return\<close> of the source is one branch.
\<close>

definition on_declare :: "string \<Rightarrow> scan_vars \<Rightarrow> scan_vars" where
  "on_declare m v =
     (if skip v \<noteq> [] \<and> startsWith m (skip v) then v\<lparr>cur_namespace := []\<rparr>
      else
        (let v1 = (if skip v \<noteq> [] then v\<lparr>skip := []\<rparr> else v)
         in if blacklisted m then v1\<lparr>cur_namespace := []\<rparr>
            else if deprecated_has m then v1\<lparr>cur_namespace := [], skip := m @ ''.''\<rparr>
            else
              (let dot = lastIndexOf m (CHR ''.'')
               in v1\<lparr>cur_namespace := m,
                     cur_name := (if dot = - 1 then m else substr m (dot + 1))\<rparr>)))"

text \<open>The body shared by the two export-marker branches; \<open>b\<close> is the \<open>module\<close> flag.\<close>

definition on_export :: "bool \<Rightarrow> string \<Rightarrow> ImportDB \<times> scan_vars \<Rightarrow> ImportDB \<times> scan_vars" where
  "on_export b path st =
     (case st of (db, v) \<Rightarrow>
        if \<not> Map_has (imports db) (cur_namespace v) then
          (db\<lparr>imports := Map_set (imports db) (cur_namespace v)
                 \<lparr>name = cur_name v, namespace = cur_namespace v,
                  module = b, sourcepath = path\<rparr>\<rparr>,
           v\<lparr>found := found v @ [cur_namespace v]\<rparr>)
        else (db, v))"

definition on_line :: "string \<Rightarrow> string \<Rightarrow> ImportDB \<times> scan_vars \<Rightarrow> ImportDB \<times> scan_vars" where
  "on_line path ln st =
     (case st of (db, v) \<Rightarrow>
        (case matchDeclare ln of
           Some m \<Rightarrow> (db, on_declare m v)
         | None \<Rightarrow>
             if cur_namespace v \<noteq> [] \<and> indexOf ln ''export = alias'' \<noteq> - 1
             then on_export True path (db, v)
             else if cur_namespace v \<noteq> [] \<and> indexOf ln ''export default alias'' \<noteq> - 1
             then on_export False path (db, v)
             else (db, v)))"

text \<open>The \<open>close\<close> callback.\<close>

definition on_close :: "string \<Rightarrow> ImportDB \<times> scan_vars \<Rightarrow> ImportDB" where
  "on_close path st =
     (case st of (db, v) \<Rightarrow>
        if length (found v) > 0
        then db\<lparr>completions := None, files := Map_set (files db) path (found v)\<rparr>
        else db)"

text \<open>The reader calls the \<open>line\<close> callback once for each line, in order.\<close>

definition read_lines :: "string \<Rightarrow> string list \<Rightarrow> ImportDB \<times> scan_vars \<Rightarrow> ImportDB \<times> scan_vars" where
  "read_lines path lns st = foldl (\<lambda>st ln. on_line path ln st) st lns"

text \<open>
  An open reader: the path and the variables its callbacks close over, and the lines of
  the file that it has not delivered yet.
\<close>

record reader =
  r_path :: string
  r_vars :: scan_vars
  r_lines :: "string list"

record server =
  index :: ImportDB
  readers :: "reader list"

definition newServer :: server where
  "newServer = \<lparr>index = newImportDB, readers = []\<rparr>"

text \<open>
  \<open>scanFile\<close> itself: the old entries of the path are removed and a reader is opened on
  the file, whose lines are \<open>lns\<close>. Nothing is read yet.
\<close>

definition scanFile :: "string \<Rightarrow> string list \<Rightarrow> server \<Rightarrow> server" where
  "scanFile path lns s =
     s\<lparr>index := removeFile path (index s),
       readers := readers s @ [\<lparr>r_path = path, r_vars = scan_init, r_lines = lns\<rparr>]\<rparr>"

text \<open>The \<open>k\<close>-th open reader delivers its next line.\<close>

definition line_event :: "nat \<Rightarrow> server \<Rightarrow> server" where
  "line_event k s =
     (if k < length (readers s) then
        (let r = readers s ! k
         in case r_lines r of
              [] \<Rightarrow> s
            | ln # lns \<Rightarrow>
                (case on_line (r_path r) ln (index s, r_vars r) of
                   (db, v) \<Rightarrow>
                     s\<lparr>index := db,
                       readers := (readers s)[k := r\<lparr>r_vars := v, r_lines := lns\<rparr>]\<rparr>))
      else s)"

text \<open>The \<open>k\<close>-th open reader has delivered all its lines and closes.\<close>

definition close_event :: "nat \<Rightarrow> server \<Rightarrow> server" where
  "close_event k s =
     (if k < length (readers s) \<and> r_lines (readers s ! k) = [] then
        (let r = readers s ! k
         in s\<lparr>index := on_close (r_path r) (index s, r_vars r),
              readers := take k (readers s) @ drop (Suc k) (readers s)\<rparr>)
      else s)"

subsection \<open>getCompletions\<close>

text \<open>The body of the loop over the import records.\<close>

definition completionItem :: "ImportInfo \<Rightarrow> CompletionItem" where
  "completionItem i =
     (let module' = (if module i then ''* as '' else '''');
          importText = ''import '' @ module' @ name i @ '' from 'goog:'' @ namespace i @ ''';\<newline>'';
          addImport = TextEdit_insert (Position_create 0 0) importText
      in \<lparr>label = name i,
          detail = ''Auto import '' @ namespace i,
          kind = (if module i then Module else Class),
          additionalTextEdits = [addImport],
          commitCharacters = [''.'']\<rparr>)"

text \<open>
  The table \<open>PrebakedClosure\<close> of \<open>./prebaked\<close> is not among the sources; it is the first
  argument. \<open>generate\<close> is the block guarded by \<open>if (!this.completions)\<close>: the list it
  leaves in the cache.
\<close>

definition generate :: "ImportInfo list \<Rightarrow> ImportDB \<Rightarrow> CompletionItem list" where
  "generate PrebakedClosure db =
     (let imports0 = Map_values (imports db);
          imports1 = (if \<not> Map_has (imports db) ''goog.ui.Component''
                      then imports0 @ PrebakedClosure else imports0)
      in foldl (\<lambda>acc i. acc @ [completionItem i]) [] imports1)"

text \<open>
  The result is the returned list and the state after the call. An array, also an empty
  one, is truthy: the cache is rebuilt only when it is unset.
\<close>

definition getCompletions :: "ImportInfo list \<Rightarrow> ImportDB \<Rightarrow> CompletionItem list \<times> ImportDB" where
  "getCompletions PrebakedClosure db =
     (case completions db of
        Some c \<Rightarrow> (c, db)
      | None \<Rightarrow> (let c = generate PrebakedClosure db in (c, db\<lparr>completions := Some c\<rparr>)))"

subsection \<open>Runs of the server\<close>

text \<open>
  What can happen to the server: one of the three calls, or an event of an open reader. An
  event of a reader that is not there, or a \<open>close\<close> before the last line, changes nothing.
\<close>

datatype event =
  ScanFile string "string list" | RemoveFile string | GetCompletions | Line nat | Close nat

fun step :: "ImportInfo list \<Rightarrow> server \<Rightarrow> event \<Rightarrow> server" where
  "step pre s (ScanFile path lns) = scanFile path lns s"
| "step pre s (RemoveFile path) = s\<lparr>index := removeFile path (index s)\<rparr>"
| "step pre s GetCompletions = s\<lparr>index := snd (getCompletions pre (index s))\<rparr>"
| "step pre s (Line k) = line_event k s"
| "step pre s (Close k) = close_event k s"

definition run :: "ImportInfo list \<Rightarrow> event list \<Rightarrow> server" where
  "run pre evs = foldl (step pre) newServer evs"

text \<open>
  A scan that nothing interrupts: the call, then every line of reader \<open>k\<close>, then its close.
  The reader a call opens is the last one, so \<open>k\<close> is the number of readers open before.
\<close>

definition alone :: "nat \<Rightarrow> string \<Rightarrow> string list \<Rightarrow> event list" where
  "alone k path lns = ScanFile path lns # replicate (length lns) (Line k) @ [Close k]"

text \<open>
  A schedule in which every scan runs to its close before the next call is made: no
  reader is open when a call is made.
\<close>

datatype call = Scan string "string list" | Remove string | Completions

fun serial :: "call list \<Rightarrow> event list" where
  "serial [] = []"
| "serial (Scan path lns # cs) = alone 0 path lns @ serial cs"
| "serial (Remove path # cs) = RemoveFile path # serial cs"
| "serial (Completions # cs) = GetCompletions # serial cs"

text \<open>
  What a scan that nothing interrupts does to the index: the three stages composed
  (lemma \<open>run_alone\<close> below).
\<close>

definition scan_alone :: "string \<Rightarrow> string list \<Rightarrow> ImportDB \<Rightarrow> ImportDB" where
  "scan_alone path lns db =
     on_close path (read_lines path lns (removeFile path db, scan_init))"

text \<open>The namespaces the reverse map lists for a path; none when the path has no row.\<close>

definition namespacesOf :: "ImportDB \<Rightarrow> string \<Rightarrow> string list" where
  "namespacesOf db p = (case Map_get (files db) p of None \<Rightarrow> [] | Some ns \<Rightarrow> ns)"

text \<open>The namespaces of the forward map whose record has the given source path.\<close>

definition sourcedFrom :: "ImportDB \<Rightarrow> string \<Rightarrow> string list" where
  "sourcedFrom db p =
     filter (\<lambda>n. case Map_get (imports db) n of None \<Rightarrow> False | Some i \<Rightarrow> sourcepath i = p)
       (map fst (imports db))"


subsection \<open>Notions used in the statements\<close>

text \<open>The reverse map agrees with the forward map, for every path.\<close>

definition consistent :: "ImportDB \<Rightarrow> bool" where
  "consistent db = (\<forall>p. set (namespacesOf db p) = set (sourcedFrom db p))"

text \<open>The cache is unset, or it holds what a rebuild from the current index would give.\<close>

definition coherent :: "ImportInfo list \<Rightarrow> ImportDB \<Rightarrow> bool" where
  "coherent pre db = (completions db = None \<or> completions db = Some (generate pre db))"

text \<open>Two states of the scanner variables that differ at most in \<open>found\<close>.\<close>

definition same_vars :: "scan_vars \<Rightarrow> scan_vars \<Rightarrow> bool" where
  "same_vars v w =
     (cur_namespace v = cur_namespace w \<and> cur_name v = cur_name w \<and> skip v = skip w)"

text \<open>
  How the \<open>line\<close> callback classifies a line that is not a declaration: \<open>Some True\<close> for
  the module export marker, \<open>Some False\<close> for the default export marker (tested second).
\<close>

definition export_marker :: "string \<Rightarrow> bool option" where
  "export_marker ln =
     (if indexOf ln ''export = alias'' \<noteq> - 1 then Some True
      else if indexOf ln ''export default alias'' \<noteq> - 1 then Some False
      else None)"

text \<open>
  A file declares a namespace when its lines hold an accepted declaration followed by an
  export marker for it: its \<open>line\<close> callbacks, run on the empty index, store the namespace.
\<close>

definition declares :: "string \<Rightarrow> string list \<Rightarrow> string \<Rightarrow> bool" where
  "declares path lns n =
     Map_has (imports (fst (read_lines path lns (newImportDB, scan_init)))) n"








text \<open>While no open reader has found a namespace, the cache is coherent.\<close>

definition cache_sound :: "ImportInfo list \<Rightarrow> server \<Rightarrow> bool" where
  "cache_sound pre s =
     ((\<forall>r\<in>set (readers s). found (r_vars r) = []) \<longrightarrow> coherent pre (index s))"

text \<open>No blacklisted namespace is a key or the active namespace of an open reader.\<close>

definition clean :: "server \<Rightarrow> bool" where
  "clean s =
     ((\<forall>n. Map_has (imports (index s)) n \<longrightarrow> \<not> blacklisted n) \<and>
      (\<forall>r\<in>set (readers s). \<not> blacklisted (cur_namespace (r_vars r))))"

text \<open>Small files used in the examples below.\<close>

definition button_lines :: "string list" where
  "button_lines =
     [''declare module 'goog:goog.ui.Button' {'',
      ''  export default alias;'',
      ''}'']"

definition dom_lines :: "string list" where
  "dom_lines =
     [''declare module 'goog:goog.dom' {'',
      ''  export = alias;'',
      ''}'']"

definition tabpane_lines :: "string list" where
  "tabpane_lines =
     [''declare module 'goog:goog.ui.TabPane' {'',
      ''  export default alias;'',
      ''}'',
      ''declare module 'goog:goog.ui.TabPane.Events' {'',
      ''  export = alias;'',
      ''}'',
      ''declare module 'goog:goog.ui.Button' {'',
      ''  export default alias;'',
      ''}'']"

definition symbols_lines :: "string list" where
  "symbols_lines =
     [''declare module 'goog:goog.i18n.DateTimeSymbols.foo' {'',
      ''  export = alias;'',
      ''}'']"

definition component_lines :: "string list" where
  "component_lines =
     [''declare module 'goog:goog.ui.Component' {'',
      ''  export default alias;'',
      ''}'']"

definition dom_button_lines :: "string list" where
  "dom_button_lines = dom_lines @ button_lines"

text \<open>The index after two files with different namespaces were scanned, one after the other.\<close>

definition two_files :: ImportDB where
  "two_files =
     index (run [] (serial [Scan ''a.d.ts'' dom_lines, Scan ''b.d.ts'' button_lines]))"

section \<open>Properties\<close>

subsection \<open>The map operations\<close>

lemma Map_has_get: "Map_has m k = (Map_get m k \<noteq> None)"
  by (simp add: Map_has_def Map_get_def)

lemma Map_get_delete [simp]:
  "Map_get (Map_delete m k) k' = (if k' = k then None else Map_get m k')"
  by (simp add: Map_get_def Map_delete_def delete_conv)

lemma Map_has_delete [simp]: "Map_has (Map_delete m k) k' = (k' \<noteq> k \<and> Map_has m k')"
  by (auto simp: Map_has_get)

lemma Map_get_set [simp]:
  "Map_get (Map_set m k v) k' = (if k' = k then Some v else Map_get m k')"
  by (simp add: Map_get_def Map_set_def update_conv)

lemma Map_get_foldl_delete [simp]:
  "Map_get (foldl Map_delete m ns) k = (if k \<in> set ns then None else Map_get m k)"
  by (induction ns arbitrary: m) auto

lemma update_fresh: "map_of al k = None \<Longrightarrow> AList.update k v al = al @ [(k, v)]"
  by (induction al) (auto split: if_splits)

lemma Map_set_fresh: "\<not> Map_has m k \<Longrightarrow> Map_set m k v = m @ [(k, v)]"
  by (simp add: Map_has_def Map_set_def update_fresh)

lemma Map_has_append [simp]: "Map_has (m @ m') k = (Map_has m k \<or> Map_has m' k)"
  by (auto simp: Map_has_def map_add_def split: option.splits)

lemma Map_has_keys: "Map_has m k = (k \<in> fst ` set m)"
  by (simp add: Map_has_def map_of_eq_None_iff)


lemma Map_get_append:
  "Map_get (m @ m') k = (case Map_get m k of None \<Rightarrow> Map_get m' k | Some v \<Rightarrow> Some v)"
  by (simp add: Map_get_def map_add_def split: option.splits)


lemma Map_get_None_iff: "(Map_get m k = None) = (k \<notin> fst ` set m)"
  by (simp add: Map_get_def map_of_eq_None_iff)



subsection \<open>removeFile\<close>

lemma removeFile_no_row: "\<not> Map_has (files db) p \<Longrightarrow> removeFile p db = db"
  by (simp add: removeFile_def)

lemma removeFile_row:
  "Map_get (files db) p = Some ns \<Longrightarrow>
   removeFile p db = db\<lparr>imports := foldl Map_delete (imports db) ns,
                        files := Map_delete (files db) p, completions := None\<rparr>"
  by (simp add: removeFile_def Map_has_get)

lemma removeFile_drops_row [simp]: "\<not> Map_has (files (removeFile p db)) p"
  by (cases "Map_get (files db) p") (auto simp: removeFile_def Map_has_get)

text \<open>
  Claim C9. Removal is idempotent: for every path and every state of the index, a second
  \<open>removeFile\<close> of the same path right after the first leaves the state the first call
  produced.
\<close>

theorem C9_removeFile_twice: "removeFile p (removeFile p db) = removeFile p db"
  by (rule removeFile_no_row) simp

text \<open>
  Claim C3, as the code has it. \<open>removeFile\<close> unsets the completion cache when the path has
  a row in the reverse map; when the path has no row the cache keeps its value.
\<close>

theorem C3_removeFile_cache:
  "completions (removeFile p db) = (if Map_has (files db) p then None else completions db)"
  by (cases "Map_get (files db) p") (auto simp: removeFile_def Map_has_get)

subsection \<open>One pass of the scanner\<close>

lemma found_on_declare [simp]: "found (on_declare m v) = found v"
  by (simp add: on_declare_def Let_def)

lemma on_line_declare:
  "matchDeclare ln = Some m \<Longrightarrow> on_line path ln (db, v) = (db, on_declare m v)"
  by (simp add: on_line_def)

lemma on_export_has:
  "Map_has (imports db) (cur_namespace v) \<Longrightarrow> on_export b path (db, v) = (db, v)"
  by (simp add: on_export_def)

lemma on_export_fresh:
  "\<not> Map_has (imports db) (cur_namespace v) \<Longrightarrow>
   on_export b path (db, v) =
     (db\<lparr>imports := imports db @ [(cur_namespace v,
           \<lparr>name = cur_name v, namespace = cur_namespace v, module = b, sourcepath = path\<rparr>)]\<rparr>,
      v\<lparr>found := found v @ [cur_namespace v]\<rparr>)"
  by (simp add: on_export_def Map_set_fresh)

lemma on_line_other:
  "matchDeclare ln = None \<Longrightarrow>
   on_line path ln (db, v) = (db, v) \<or>
   (cur_namespace v \<noteq> [] \<and> (\<exists>b. on_line path ln (db, v) = on_export b path (db, v)))"
  by (auto simp: on_line_def)

lemma on_line_cases [consumes 1, case_names decl idle add]:
  assumes "on_line path ln (db, v) = (db', v')"
  obtains (decl) m where "matchDeclare ln = Some m" "db' = db" "v' = on_declare m v"
  | (idle) "matchDeclare ln = None" "db' = db" "v' = v"
  | (add) b where "matchDeclare ln = None" "cur_namespace v \<noteq> []"
      "\<not> Map_has (imports db) (cur_namespace v)"
      "db' = db\<lparr>imports := imports db @ [(cur_namespace v,
           \<lparr>name = cur_name v, namespace = cur_namespace v, module = b, sourcepath = path\<rparr>)]\<rparr>"
      "v' = v\<lparr>found := found v @ [cur_namespace v]\<rparr>"
proof (cases "matchDeclare ln")
  case (Some m)
  with assms have "db' = db" "v' = on_declare m v"
    by (auto simp: on_line_declare)
  with Some show ?thesis by (rule decl)
next
  case None
  from on_line_other[OF None, of path db v] show ?thesis
  proof
    assume "on_line path ln (db, v) = (db, v)"
    with assms have "db' = db" "v' = v" by simp_all
    with None show ?thesis by (rule idle)
  next
    assume a: "cur_namespace v \<noteq> [] \<and> (\<exists>b. on_line path ln (db, v) = on_export b path (db, v))"
    then obtain b where b: "on_export b path (db, v) = (db', v')" using assms by auto
    show ?thesis
    proof (cases "Map_has (imports db) (cur_namespace v)")
      case True
      with b have "db' = db" "v' = v" by (simp_all add: on_export_has)
      with None show ?thesis by (rule idle)
    next
      case False
      from b have "db' = db\<lparr>imports := imports db @ [(cur_namespace v,
           \<lparr>name = cur_name v, namespace = cur_namespace v, module = b, sourcepath = path\<rparr>)]\<rparr>"
        "v' = v\<lparr>found := found v @ [cur_namespace v]\<rparr>"
        by (simp_all add: on_export_fresh[OF False])
      with None a False show ?thesis by (intro add[of b]) simp_all
    qed
  qed
qed

lemma on_line_imports:
  assumes "on_line path ln (db, v) = (db', v')"
  shows "\<exists>new. imports db' = imports db @ new \<and> found v' = found v @ map fst new \<and>
           length new \<le> 1 \<and>
           (\<forall>e\<in>set new. \<not> Map_has (imports db) (fst e) \<and> sourcepath (snd e) = path \<and>
               namespace (snd e) = fst e) \<and>
           files db' = files db \<and> completions db' = completions db \<and>
           workspace db' = workspace db"
  using assms
proof (cases rule: on_line_cases)
  case (decl m)
  then show ?thesis by (intro exI[of _ "[]"]) simp
next
  case idle
  then show ?thesis by (intro exI[of _ "[]"]) simp
next
  case (add b)
  then show ?thesis
    by (intro exI[of _ "[(cur_namespace v, \<lparr>name = cur_name v, namespace = cur_namespace v,
                  module = b, sourcepath = path\<rparr>)]"])
       simp
qed

lemma read_lines_Nil [simp]: "read_lines path [] st = st"
  by (simp add: read_lines_def)

lemma read_lines_Cons [simp]:
  "read_lines path (ln # lns) st = read_lines path lns (on_line path ln st)"
  by (simp add: read_lines_def)

lemma read_lines_imports:
  assumes "read_lines path lns (db, v) = (db', v')"
  shows "\<exists>new. imports db' = imports db @ new \<and> found v' = found v @ map fst new \<and>
           distinct (map fst new) \<and>
           (\<forall>e\<in>set new. \<not> Map_has (imports db) (fst e) \<and> sourcepath (snd e) = path \<and>
               namespace (snd e) = fst e) \<and>
           files db' = files db \<and> completions db' = completions db \<and>
           workspace db' = workspace db"
  using assms
proof (induction lns arbitrary: db v)
  case Nil
  then show ?case by (intro exI[of _ "[]"]) simp
next
  case (Cons ln lns)
  obtain db1 v1 where st1: "on_line path ln (db, v) = (db1, v1)"
    by (cases "on_line path ln (db, v)")
  from on_line_imports[OF st1] obtain new1 where
    n1: "imports db1 = imports db @ new1" "found v1 = found v @ map fst new1"
        "length new1 \<le> 1"
        "\<forall>e\<in>set new1. \<not> Map_has (imports db) (fst e) \<and> sourcepath (snd e) = path \<and>
               namespace (snd e) = fst e"
        "files db1 = files db" "completions db1 = completions db"
        "workspace db1 = workspace db"
    by blast
  from Cons.prems st1 have "read_lines path lns (db1, v1) = (db', v')" by simp
  from Cons.IH[OF this] obtain new2 where
    n2: "imports db' = imports db1 @ new2" "found v' = found v1 @ map fst new2"
        "distinct (map fst new2)"
        "\<forall>e\<in>set new2. \<not> Map_has (imports db1) (fst e) \<and> sourcepath (snd e) = path \<and>
               namespace (snd e) = fst e"
        "files db' = files db1" "completions db' = completions db1"
        "workspace db' = workspace db1"
    by blast
  have d1: "distinct (map fst new1)"
    using n1(3) by (cases new1) auto
  have disj: "fst ` set new1 \<inter> fst ` set new2 = {}"
  proof -
    have "k \<notin> fst ` set new1" if "k \<in> fst ` set new2" for k
    proof -
      from that obtain e where "e \<in> set new2" "fst e = k" by auto
      with n2(4) have "\<not> Map_has (imports db1) k" by auto
      then show ?thesis by (simp add: n1(1) Map_has_keys image_Un)
    qed
    then show ?thesis by blast
  qed
  have fresh2: "\<not> Map_has (imports db) (fst e)" if "e \<in> set new2" for e
    using n2(4) that by (simp add: n1(1))
  show ?case
  proof (intro exI[of _ "new1 @ new2"] conjI)
    show "imports db' = imports db @ new1 @ new2" by (simp add: n1(1) n2(1))
    show "found v' = found v @ map fst (new1 @ new2)" by (simp add: n1(2) n2(2))
    show "distinct (map fst (new1 @ new2))" using d1 n2(3) disj by simp
    show "\<forall>e\<in>set (new1 @ new2). \<not> Map_has (imports db) (fst e) \<and>
            sourcepath (snd e) = path \<and> namespace (snd e) = fst e"
      using n1(4) n2(4) fresh2 by auto
    show "files db' = files db" by (simp add: n1(5) n2(5))
    show "completions db' = completions db" by (simp add: n1(6) n2(6))
    show "workspace db' = workspace db" by (simp add: n1(7) n2(7))
  qed
qed

subsection \<open>A scan that nothing interrupts: the reverse map\<close>

lemma set_sourcedFrom:
  "set (sourcedFrom db p) = {n. \<exists>i. Map_get (imports db) n = Some i \<and> sourcepath i = p}"
proof -
  have "Map_get (imports db) n = Some i \<Longrightarrow> n \<in> fst ` set (imports db)" for n i
    using Map_get_None_iff[of "imports db" n] by auto
  then show ?thesis
    by (auto simp: sourcedFrom_def split: option.splits)
qed

lemma namespacesOf_no_row: "\<not> Map_has (files db) p \<Longrightarrow> namespacesOf db p = []"
  by (simp add: namespacesOf_def Map_has_get)

lemma scan_alone_result:
  obtains new where
    "imports (scan_alone path lns db) = imports (removeFile path db) @ new"
    "distinct (map fst new)"
    "\<forall>e\<in>set new. \<not> Map_has (imports (removeFile path db)) (fst e) \<and>
        sourcepath (snd e) = path \<and> namespace (snd e) = fst e"
    "files (scan_alone path lns db) =
       (if new = [] then files (removeFile path db)
        else Map_set (files (removeFile path db)) path (map fst new))"
    "completions (scan_alone path lns db) =
       (if new = [] then completions (removeFile path db) else None)"
    "workspace (scan_alone path lns db) = workspace (removeFile path db)"
proof -
  obtain db' v' where r: "read_lines path lns (removeFile path db, scan_init) = (db', v')"
    by (cases "read_lines path lns (removeFile path db, scan_init)")
  from read_lines_imports[OF r] obtain new where
    n: "imports db' = imports (removeFile path db) @ new"
       "found v' = found scan_init @ map fst new"
       "distinct (map fst new)"
       "\<forall>e\<in>set new. \<not> Map_has (imports (removeFile path db)) (fst e) \<and>
          sourcepath (snd e) = path \<and> namespace (snd e) = fst e"
       "files db' = files (removeFile path db)"
       "completions db' = completions (removeFile path db)"
       "workspace db' = workspace (removeFile path db)"
    by blast
  have f: "found v' = map fst new" using n(2) by (simp add: scan_init_def)
  have s: "scan_alone path lns db = on_close path (db', v')"
    by (simp add: scan_alone_def r)
  show ?thesis
  proof (rule that[of new])
    show "imports (scan_alone path lns db) = imports (removeFile path db) @ new"
      by (simp add: s on_close_def n(1))
    show "distinct (map fst new)" by (rule n(3))
    show "\<forall>e\<in>set new. \<not> Map_has (imports (removeFile path db)) (fst e) \<and>
        sourcepath (snd e) = path \<and> namespace (snd e) = fst e" by (rule n(4))
    show "files (scan_alone path lns db) =
       (if new = [] then files (removeFile path db)
        else Map_set (files (removeFile path db)) path (map fst new))"
      by (simp add: s on_close_def f n(5))
    show "completions (scan_alone path lns db) =
       (if new = [] then completions (removeFile path db) else None)"
      by (simp add: s on_close_def f n(6))
    show "workspace (scan_alone path lns db) = workspace (removeFile path db)"
      by (simp add: s on_close_def f n(7))
  qed
qed

lemma removeFile_Map_get_imports:
  "Map_get (imports (removeFile p db)) n =
     (if n \<in> set (namespacesOf db p) then None else Map_get (imports db) n)"
  by (cases "Map_get (files db) p") (auto simp: removeFile_def namespacesOf_def Map_has_get)

lemma removeFile_Map_get_files:
  "Map_get (files (removeFile p db)) q = (if q = p then None else Map_get (files db) q)"
  by (cases "Map_get (files db) p") (auto simp: removeFile_def Map_has_get)

lemma namespacesOf_removeFile:
  "namespacesOf (removeFile p db) q = (if q = p then [] else namespacesOf db q)"
  by (simp add: namespacesOf_def removeFile_Map_get_files)



lemma getCompletions_frame:
  "imports (snd (getCompletions pre db)) = imports db \<and>
   files (snd (getCompletions pre db)) = files db \<and>
   workspace (snd (getCompletions pre db)) = workspace db"
  by (simp add: getCompletions_def Let_def split: option.splits)


subsection \<open>Removal frame and the completion cache\<close>

text \<open>
  Claim C10. Frame of removal. Assume every namespace that the reverse map lists for \<open>p\<close>
  has a record with source path \<open>p\<close>. Then \<open>removeFile p\<close> adds and changes no entry of
  the forward map, keeps every entry whose source path is not \<open>p\<close>, and keeps the row of
  every other path in the reverse map; the workspace is untouched.
\<close>

theorem C10_removeFile_frame:
  assumes "\<forall>n\<in>set (namespacesOf db p). \<forall>i. Map_get (imports db) n = Some i \<longrightarrow> sourcepath i = p"
  shows "(\<forall>n i. Map_get (imports (removeFile p db)) n = Some i \<longrightarrow>
            Map_get (imports db) n = Some i) \<and>
         (\<forall>n i. Map_get (imports db) n = Some i \<and> sourcepath i \<noteq> p \<longrightarrow>
            Map_get (imports (removeFile p db)) n = Some i) \<and>
         (\<forall>q. q \<noteq> p \<longrightarrow> Map_get (files (removeFile p db)) q = Map_get (files db) q) \<and>
         workspace (removeFile p db) = workspace db"
proof (intro conjI allI impI)
  fix n i
  assume "Map_get (imports (removeFile p db)) n = Some i"
  then show "Map_get (imports db) n = Some i"
    by (simp add: removeFile_Map_get_imports split: if_splits)
next
  fix n i
  assume a: "Map_get (imports db) n = Some i \<and> sourcepath i \<noteq> p"
  with assms have "n \<notin> set (namespacesOf db p)" by auto
  with a show "Map_get (imports (removeFile p db)) n = Some i"
    by (simp add: removeFile_Map_get_imports)
next
  fix q :: string
  assume "q \<noteq> p"
  then show "Map_get (files (removeFile p db)) q = Map_get (files db) q"
    by (simp add: removeFile_Map_get_files)
next
  show "workspace (removeFile p db) = workspace db"
    by (cases "Map_get (files db) p") (simp_all add: removeFile_def Map_has_get)
qed

lemma generate_cong: "imports db = imports db' \<Longrightarrow> generate pre db = generate pre db'"
  by (simp add: generate_def)

lemma foldl_snoc_map: "foldl (\<lambda>acc i. acc @ [f i]) acc xs = acc @ map f xs"
  by (induction xs arbitrary: acc) simp_all

lemma generate_map:
  "generate pre db =
     map completionItem
       (Map_values (imports db) @
        (if Map_has (imports db) ''goog.ui.Component'' then [] else pre))"
  by (simp add: generate_def Let_def foldl_snoc_map)

lemma getCompletions_hit: "completions db = Some c \<Longrightarrow> getCompletions pre db = (c, db)"
  by (simp add: getCompletions_def)

lemma getCompletions_miss:
  "completions db = None \<Longrightarrow>
   getCompletions pre db = (generate pre db, db\<lparr>completions := Some (generate pre db)\<rparr>)"
  by (simp add: getCompletions_def Let_def)

lemma getCompletions_twice:
  "getCompletions pre (snd (getCompletions pre db)) = getCompletions pre db"
  by (cases "completions db") (simp_all add: getCompletions_def Let_def)

lemma removeFile_keys: "Map_has (imports (removeFile p db)) n \<Longrightarrow> Map_has (imports db) n"
  by (simp add: Map_has_get removeFile_Map_get_imports split: if_splits)

lemma scan_alone_adds_unsets:
  assumes "Map_has (imports (scan_alone path lns db)) n" "\<not> Map_has (imports db) n"
  shows "completions (scan_alone path lns db) = None"
proof -
  obtain new where
    n: "imports (scan_alone path lns db) = imports (removeFile path db) @ new"
       "completions (scan_alone path lns db) =
          (if new = [] then completions (removeFile path db) else None)"
    by (rule scan_alone_result[of path lns db])
  from assms(2) have "\<not> Map_has (imports (removeFile path db)) n"
    using removeFile_keys by blast
  with assms(1) have "new \<noteq> []" by (auto simp: n(1) Map_has_def)
  then show ?thesis by (simp add: n(2))
qed

lemma coherent_removeFile: "coherent pre db \<Longrightarrow> coherent pre (removeFile p db)"
  by (cases "Map_get (files db) p") (auto simp: removeFile_def Map_has_get coherent_def)

lemma coherent_scan_alone:
  assumes "coherent pre db"
  shows "coherent pre (scan_alone path lns db)"
proof -
  obtain new where
    n: "imports (scan_alone path lns db) = imports (removeFile path db) @ new"
       "completions (scan_alone path lns db) =
          (if new = [] then completions (removeFile path db) else None)"
    by (rule scan_alone_result[of path lns db])
  show ?thesis
  proof (cases "new = []")
    case True
    with n have "imports (scan_alone path lns db) = imports (removeFile path db)"
      "completions (scan_alone path lns db) = completions (removeFile path db)" by simp_all
    with coherent_removeFile[OF assms, of path] show ?thesis
      by (simp add: coherent_def generate_cong[of "scan_alone path lns db" "removeFile path db"])
  next
    case False
    then show ?thesis by (simp add: coherent_def n(2))
  qed
qed

lemma coherent_getCompletions: "coherent pre db \<Longrightarrow> coherent pre (snd (getCompletions pre db))"
  by (cases "completions db")
     (auto simp: coherent_def getCompletions_def Let_def generate_def)

lemma getCompletions_coherent:
  "coherent pre db \<Longrightarrow> fst (getCompletions pre db) = generate pre db"
  by (cases "completions db") (auto simp: coherent_def getCompletions_def Let_def)

subsection \<open>The filter policy\<close>

lemma not_blacklisted_Nil [simp]: "\<not> blacklisted []"
  by (simp add: blacklisted_def wildcardBlacklists_def startsWith_def)

lemma on_declare_not_blacklisted: "\<not> blacklisted (cur_namespace (on_declare m v))"
  by (simp add: on_declare_def Let_def)

lemma on_declare_blacklisted:
  "blacklisted m \<Longrightarrow>
   on_declare m v =
     (if skip v \<noteq> [] \<and> startsWith m (skip v) then v\<lparr>cur_namespace := []\<rparr>
      else v\<lparr>cur_namespace := [], skip := []\<rparr>)"
  by (simp add: on_declare_def)

lemma on_line_inactive:
  "cur_namespace v = [] \<Longrightarrow> matchDeclare ln = None \<Longrightarrow> on_line path ln (db, v) = (db, v)"
  by (simp add: on_line_def)

lemma cur_namespace_on_declare_blacklisted:
  "blacklisted m \<Longrightarrow> cur_namespace (on_declare m v) = []"
  by (simp add: on_declare_blacklisted)

lemma Map_has_single: "Map_has [(k, x)] n = (n = k)"
  by (auto simp: Map_has_def)

lemma on_line_clean:
  assumes "on_line path ln (db, v) = (db', v')"
    and "\<not> blacklisted (cur_namespace v)"
    and "\<forall>n. Map_has (imports db) n \<longrightarrow> \<not> blacklisted n"
  shows "\<not> blacklisted (cur_namespace v') \<and> (\<forall>n. Map_has (imports db') n \<longrightarrow> \<not> blacklisted n)"
  using assms(1)
proof (cases rule: on_line_cases)
  case (decl m)
  with assms(3) show ?thesis by (simp add: on_declare_not_blacklisted)
next
  case idle
  with assms(2,3) show ?thesis by simp
next
  case (add b)
  with assms(2,3) show ?thesis by (auto simp: Map_has_single)
qed

lemma read_lines_clean:
  assumes "read_lines path lns (db, v) = (db', v')"
    and "\<not> blacklisted (cur_namespace v)"
    and "\<forall>n. Map_has (imports db) n \<longrightarrow> \<not> blacklisted n"
  shows "\<forall>n. Map_has (imports db') n \<longrightarrow> \<not> blacklisted n"
  using assms
proof (induction lns arbitrary: db v)
  case Nil
  then show ?case by simp
next
  case (Cons ln lns)
  obtain db1 v1 where st1: "on_line path ln (db, v) = (db1, v1)"
    by (cases "on_line path ln (db, v)")
  from on_line_clean[OF st1 Cons.prems(2,3)]
  have c: "\<not> blacklisted (cur_namespace v1)" "\<forall>n. Map_has (imports db1) n \<longrightarrow> \<not> blacklisted n"
    by simp_all
  from Cons.prems(1) st1 have "read_lines path lns (db1, v1) = (db', v')" by simp
  from Cons.IH[OF this c] show ?case .
qed

lemma clean_removeFile:
  assumes "\<forall>n. Map_has (imports db) n \<longrightarrow> \<not> blacklisted n"
  shows "\<forall>n. Map_has (imports (removeFile p db)) n \<longrightarrow> \<not> blacklisted n"
  using assms removeFile_keys by blast

lemma clean_scan_alone:
  assumes "\<forall>n. Map_has (imports db) n \<longrightarrow> \<not> blacklisted n"
  shows "\<forall>n. Map_has (imports (scan_alone path lns db)) n \<longrightarrow> \<not> blacklisted n"
proof -
  obtain db' v' where r: "read_lines path lns (removeFile path db, scan_init) = (db', v')"
    by (cases "read_lines path lns (removeFile path db, scan_init)")
  have "\<not> blacklisted (cur_namespace scan_init)" by (simp add: scan_init_def)
  from read_lines_clean[OF r this clean_removeFile[OF assms]]
  have "\<forall>n. Map_has (imports db') n \<longrightarrow> \<not> blacklisted n" .
  moreover have "imports (scan_alone path lns db) = imports db'"
    by (simp add: scan_alone_def r on_close_def)
  ultimately show ?thesis by simp
qed

lemma blacklisted_symbols_foo: "blacklisted ''goog.i18n.DateTimeSymbols.foo''"
  by (simp add: blacklisted_def wildcardBlacklists_def startsWith_def)

subsection \<open>Two scans of the same lines\<close>

lemma on_line_marker:
  "matchDeclare ln = None \<Longrightarrow>
   on_line p ln (db, v) =
     (case (if cur_namespace v = [] then None else export_marker ln) of
        None \<Rightarrow> (db, v)
      | Some b \<Rightarrow> on_export b p (db, v))"
  by (simp add: on_line_def export_marker_def)

lemma same_vars_on_declare: "same_vars v w \<Longrightarrow> same_vars (on_declare m v) (on_declare m w)"
  by (simp add: same_vars_def on_declare_def Let_def)

lemma same_vars_on_export: "same_vars (snd (on_export b p (db, v))) v"
  by (simp add: same_vars_def on_export_def)

lemma same_vars_sym: "same_vars v w \<Longrightarrow> same_vars w v"
  by (simp add: same_vars_def)

lemma same_vars_trans: "same_vars u v \<Longrightarrow> same_vars v w \<Longrightarrow> same_vars u w"
  by (simp add: same_vars_def)

lemma on_export_has_after: "Map_has (imports (fst (on_export b p (db, v)))) (cur_namespace v)"
  by (simp add: on_export_def Map_has_get)

lemma on_export_gain:
  "Map_has (imports (fst (on_export b p (db, v)))) n \<Longrightarrow> \<not> Map_has (imports db) n \<Longrightarrow>
   n = cur_namespace v"
  by (auto simp: on_export_def Map_has_get split: if_splits)

lemma on_line_sim:
  assumes "same_vars v1 v2"
  shows "same_vars (snd (on_line p ln (db1, v1))) (snd (on_line q ln (db2, v2)))"
    and "Map_has (imports (fst (on_line p ln (db1, v1)))) n \<Longrightarrow> \<not> Map_has (imports db1) n \<Longrightarrow>
         Map_has (imports (fst (on_line q ln (db2, v2)))) n"
proof -
  have ns: "cur_namespace v2 = cur_namespace v1" using assms by (simp add: same_vars_def)
  define r where "r = (if cur_namespace v1 = [] then None else export_marker ln)"
  have e1: "on_line p ln (db1, v1) =
      (case r of None \<Rightarrow> (db1, v1) | Some b \<Rightarrow> on_export b p (db1, v1))"
    if "matchDeclare ln = None"
    unfolding r_def by (rule on_line_marker[OF that])
  have e2: "on_line q ln (db2, v2) =
      (case r of None \<Rightarrow> (db2, v2) | Some b \<Rightarrow> on_export b q (db2, v2))"
    if "matchDeclare ln = None"
    unfolding r_def ns[symmetric] by (rule on_line_marker[OF that])
  show "same_vars (snd (on_line p ln (db1, v1))) (snd (on_line q ln (db2, v2)))"
  proof (cases "matchDeclare ln")
    case (Some m)
    have "on_line p ln (db1, v1) = (db1, on_declare m v1)"
      "on_line q ln (db2, v2) = (db2, on_declare m v2)"
      using Some by (simp_all only: on_line_declare)
    then show ?thesis using same_vars_on_declare[OF assms, of m] by simp
  next
    case None
    show ?thesis
    proof (cases r)
      case None': None
      have "on_line p ln (db1, v1) = (db1, v1)" "on_line q ln (db2, v2) = (db2, v2)"
        using e1[OF None] e2[OF None] None' by simp_all
      then show ?thesis using assms by simp
    next
      case (Some b)
      have "on_line p ln (db1, v1) = on_export b p (db1, v1)"
        "on_line q ln (db2, v2) = on_export b q (db2, v2)"
        using e1[OF None] e2[OF None] Some by simp_all
      then show ?thesis
        using same_vars_trans[OF same_vars_on_export[of b p db1 v1]
                same_vars_trans[OF assms same_vars_sym[OF same_vars_on_export[of b q db2 v2]]]]
        by simp
    qed
  qed
  assume g: "Map_has (imports (fst (on_line p ln (db1, v1)))) n" "\<not> Map_has (imports db1) n"
  show "Map_has (imports (fst (on_line q ln (db2, v2)))) n"
  proof (cases "matchDeclare ln")
    case (Some m)
    have "on_line p ln (db1, v1) = (db1, on_declare m v1)"
      using Some by (simp only: on_line_declare)
    with g show ?thesis by simp
  next
    case None
    show ?thesis
    proof (cases r)
      case None': None
      have "on_line p ln (db1, v1) = (db1, v1)"
        using e1[OF None] None' by simp
      with g show ?thesis by simp
    next
      case (Some b)
      have o: "on_line p ln (db1, v1) = on_export b p (db1, v1)"
        "on_line q ln (db2, v2) = on_export b q (db2, v2)"
        using e1[OF None] e2[OF None] Some by simp_all
      from g(1) have "Map_has (imports (fst (on_export b p (db1, v1)))) n" by (simp only: o)
      from on_export_gain[OF this g(2)] have "n = cur_namespace v2" by (simp add: ns)
      with on_export_has_after[of b q db2 v2] show ?thesis by (simp only: o)
    qed
  qed
qed

lemma read_lines_mono:
  "Map_has (imports db) n \<Longrightarrow> Map_has (imports (fst (read_lines p lns (db, v)))) n"
proof -
  obtain db' v' where r: "read_lines p lns (db, v) = (db', v')"
    by (cases "read_lines p lns (db, v)")
  from read_lines_imports[OF r] obtain new where "imports db' = imports db @ new" by blast
  then show "Map_has (imports db) n \<Longrightarrow> Map_has (imports (fst (read_lines p lns (db, v)))) n"
    by (simp add: r)
qed

lemma read_lines_sim:
  assumes "same_vars v1 v2"
    and "Map_has (imports (fst (read_lines p lns (db1, v1)))) n"
    and "\<not> Map_has (imports db1) n"
  shows "Map_has (imports (fst (read_lines q lns (db2, v2)))) n"
  using assms
proof (induction lns arbitrary: db1 v1 db2 v2)
  case Nil
  then show ?case by simp
next
  case (Cons ln lns)
  obtain d1 w1 where s1: "on_line p ln (db1, v1) = (d1, w1)" by (cases "on_line p ln (db1, v1)")
  obtain d2 w2 where s2: "on_line q ln (db2, v2) = (d2, w2)" by (cases "on_line q ln (db2, v2)")
  from on_line_sim(1)[OF Cons.prems(1), of p ln db1 q db2] s1 s2
  have sv: "same_vars w1 w2" by simp
  show ?case
  proof (cases "Map_has (imports d1) n")
    case True
    with on_line_sim(2)[OF Cons.prems(1), of p ln db1 n q db2] Cons.prems(3) s1 s2
    have "Map_has (imports d2) n" by simp
    from read_lines_mono[OF this, of q lns w2] show ?thesis by (simp add: s2)
  next
    case False
    from Cons.prems(2) s1 have "Map_has (imports (fst (read_lines p lns (d1, w1)))) n" by simp
    from Cons.IH[OF sv this False, of d2] show ?thesis by (simp add: s2)
  qed
qed

lemma imports_scan_alone:
  "imports (scan_alone p lns db) = imports (fst (read_lines p lns (removeFile p db, scan_init)))"
  by (cases "read_lines p lns (removeFile p db, scan_init)") (simp add: scan_alone_def on_close_def)

lemma scan_alone_sim:
  assumes "Map_has (imports (scan_alone p lns db1)) n" "\<not> Map_has (imports (removeFile p db1)) n"
  shows "Map_has (imports (scan_alone q lns db2)) n"
  using read_lines_sim[of scan_init scan_init p lns "removeFile p db1" n q "removeFile q db2"] assms
  by (simp add: imports_scan_alone same_vars_def)

lemma declares_scan_alone: "declares p lns n \<Longrightarrow> Map_has (imports (scan_alone q lns db)) n"
  using read_lines_sim[of scan_init scan_init p lns newImportDB n q "removeFile q db"]
  by (simp add: declares_def imports_scan_alone same_vars_def newImportDB_def Map_has_def)

lemma scan_alone_declares:
  "Map_has (imports (scan_alone q lns db)) n \<Longrightarrow> \<not> Map_has (imports (removeFile q db)) n \<Longrightarrow>
   declares p lns n"
  using read_lines_sim[of scan_init scan_init q lns "removeFile q db" n p newImportDB]
  by (simp add: declares_def imports_scan_alone same_vars_def)

subsection \<open>A scan that nothing interrupts: ownership and rescans\<close>

lemma scan_alone_keeps_other:
  assumes "consistent db" "Map_get (imports db) n = Some i" "sourcepath i \<noteq> p"
  shows "Map_get (imports (scan_alone p lns db)) n = Some i"
proof -
  have "n \<notin> set (namespacesOf db p)"
    using assms by (auto simp: consistent_def set_sourcedFrom)
  with assms(2) have "Map_get (imports (removeFile p db)) n = Some i"
    by (simp add: removeFile_Map_get_imports)
  moreover obtain new where "imports (scan_alone p lns db) = imports (removeFile p db) @ new"
    by (rule scan_alone_result[of p lns db])
  ultimately show ?thesis by (simp add: Map_get_append)
qed


lemma removeFile_owner:
  assumes "consistent db" "Map_get (imports db) n = Some i" "sourcepath i = p"
  shows "Map_get (imports (removeFile p db)) n = None"
proof -
  have "n \<in> set (namespacesOf db p)"
    using assms by (auto simp: consistent_def set_sourcedFrom)
  then show ?thesis by (simp add: removeFile_Map_get_imports)
qed

lemma namespacesOf_scan_alone_new:
  assumes "imports (scan_alone p lns db) = imports (removeFile p db) @ new"
    "files (scan_alone p lns db) =
       (if new = [] then files (removeFile p db)
        else Map_set (files (removeFile p db)) p (map fst new))"
  shows "namespacesOf (scan_alone p lns db) p = map fst new"
proof (cases "new = []")
  case True
  then show ?thesis
    using namespacesOf_removeFile[of p db p] by (simp add: namespacesOf_def assms(2))
next
  case False
  then show ?thesis by (simp add: namespacesOf_def assms(2))
qed

lemma set_namespacesOf_scan_alone:
  "set (namespacesOf (scan_alone p lns db) p) =
     {n. declares p lns n \<and> (n \<in> set (namespacesOf db p) \<or> \<not> Map_has (imports db) n)}"
proof -
  obtain new where
    n: "imports (scan_alone p lns db) = imports (removeFile p db) @ new"
       "distinct (map fst new)"
       "\<forall>e\<in>set new. \<not> Map_has (imports (removeFile p db)) (fst e) \<and>
          sourcepath (snd e) = p \<and> namespace (snd e) = fst e"
       "files (scan_alone p lns db) =
         (if new = [] then files (removeFile p db)
          else Map_set (files (removeFile p db)) p (map fst new))"
    by (rule scan_alone_result[of p lns db])
  have ns: "namespacesOf (scan_alone p lns db) p = map fst new"
    using n(1,4) by (rule namespacesOf_scan_alone_new)
  have rem: "Map_has (imports (removeFile p db)) k =
       (Map_has (imports db) k \<and> k \<notin> set (namespacesOf db p))" for k
    by (simp add: Map_has_get removeFile_Map_get_imports)
  have keys: "(k \<in> fst ` set new) =
       (Map_has (imports (scan_alone p lns db)) k \<and> \<not> Map_has (imports (removeFile p db)) k)" for k
  proof
    assume "k \<in> fst ` set new"
    then obtain e where e: "e \<in> set new" "fst e = k" by auto
    with n(3) have "\<not> Map_has (imports (removeFile p db)) k" by auto
    moreover from e have "Map_has new k" by (auto simp: Map_has_keys)
    ultimately show "Map_has (imports (scan_alone p lns db)) k \<and> \<not> Map_has (imports (removeFile p db)) k"
      by (simp add: n(1))
  next
    assume "Map_has (imports (scan_alone p lns db)) k \<and> \<not> Map_has (imports (removeFile p db)) k"
    then have "Map_has new k" by (auto simp: n(1))
    then show "k \<in> fst ` set new" by (simp add: Map_has_keys)
  qed
  have "(k \<in> fst ` set new) =
        (declares p lns k \<and> (k \<in> set (namespacesOf db p) \<or> \<not> Map_has (imports db) k))" for k
  proof
    assume a: "k \<in> fst ` set new"
    then have b: "Map_has (imports (scan_alone p lns db)) k" "\<not> Map_has (imports (removeFile p db)) k"
      by (simp_all add: keys)
    from scan_alone_declares[OF b] have "declares p lns k" .
    with b(2) show "declares p lns k \<and> (k \<in> set (namespacesOf db p) \<or> \<not> Map_has (imports db) k)"
      by (auto simp: rem)
  next
    assume a: "declares p lns k \<and> (k \<in> set (namespacesOf db p) \<or> \<not> Map_has (imports db) k)"
    then have "declares p lns k" by simp
    then have "Map_has (imports (scan_alone p lns db)) k" by (rule declares_scan_alone)
    moreover from a have "\<not> Map_has (imports (removeFile p db)) k" by (auto simp: rem)
    ultimately show "k \<in> fst ` set new" by (simp add: keys)
  qed
  then show ?thesis by (auto simp: ns)
qed

subsection \<open>Events of the server\<close>

lemma line_event_at:
  assumes "readers s = A @ r # B" "r_lines r = ln # lns"
    "on_line (r_path r) ln (index s, r_vars r) = (db, v)"
  shows "line_event (length A) s =
           s\<lparr>index := db, readers := A @ r\<lparr>r_vars := v, r_lines := lns\<rparr> # B\<rparr>"
  using assms by (simp add: line_event_def Let_def)

lemma close_event_at:
  assumes "readers s = A @ r # B" "r_lines r = []"
  shows "close_event (length A) s =
           s\<lparr>index := on_close (r_path r) (index s, r_vars r), readers := A @ B\<rparr>"
  using assms by (simp add: close_event_def Let_def)

lemma split_at:
  assumes "k < length rs"
  obtains A r B where "rs = A @ r # B" "k = length A" "r = rs ! k"
proof -
  have "rs = take k rs @ rs ! k # drop (Suc k) rs" using assms by (rule id_take_nth_drop)
  moreover have "k = length (take k rs)" using assms by simp
  ultimately show ?thesis using that by blast
qed

lemma line_event_cases [case_names idle line]:
  obtains (idle) "line_event k s = s"
  | (line) A r B ln lns db v where "readers s = A @ r # B" "k = length A" "r_lines r = ln # lns"
      "on_line (r_path r) ln (index s, r_vars r) = (db, v)"
      "line_event k s = s\<lparr>index := db, readers := A @ r\<lparr>r_vars := v, r_lines := lns\<rparr> # B\<rparr>"
proof (cases "k < length (readers s)")
  case False
  then have "line_event k s = s" by (simp add: line_event_def)
  then show ?thesis by (rule idle)
next
  case True
  then obtain A r B where d: "readers s = A @ r # B" "k = length A" by (rule split_at)
  show ?thesis
  proof (cases "r_lines r")
    case Nil
    with d have "line_event k s = s" by (simp add: line_event_def Let_def)
    then show ?thesis by (rule idle)
  next
    case (Cons ln lns)
    obtain db v where o: "on_line (r_path r) ln (index s, r_vars r) = (db, v)"
      by (cases "on_line (r_path r) ln (index s, r_vars r)")
    from line_event_at[OF d(1) Cons o] d(2) show ?thesis
      by (intro line[OF d(1) d(2) Cons o]) simp
  qed
qed

lemma close_event_cases [case_names idle close]:
  obtains (idle) "close_event k s = s"
  | (close) A r B where "readers s = A @ r # B" "k = length A" "r_lines r = []"
      "close_event k s = s\<lparr>index := on_close (r_path r) (index s, r_vars r), readers := A @ B\<rparr>"
proof (cases "k < length (readers s)")
  case False
  then have "close_event k s = s" by (simp add: close_event_def)
  then show ?thesis by (rule idle)
next
  case True
  then obtain A r B where d: "readers s = A @ r # B" "k = length A" by (rule split_at)
  show ?thesis
  proof (cases "r_lines r")
    case Nil
    from close_event_at[OF d(1) Nil] d(2) show ?thesis
      by (intro close[OF d(1) d(2) Nil]) simp
  next
    case (Cons ln lns)
    with d have "close_event k s = s" by (simp add: close_event_def)
    then show ?thesis by (rule idle)
  qed
qed

lemma step_invariant:
  assumes P: "P s"
    and scan: "\<And>s path lns. P s \<Longrightarrow> P (scanFile path lns s)"
    and remove: "\<And>s path. P s \<Longrightarrow> P (s\<lparr>index := removeFile path (index s)\<rparr>)"
    and compl: "\<And>s. P s \<Longrightarrow> P (s\<lparr>index := snd (getCompletions pre (index s))\<rparr>)"
    and on_ln: "\<And>s A r B ln lns db v. P s \<Longrightarrow> readers s = A @ r # B \<Longrightarrow> r_lines r = ln # lns \<Longrightarrow>
        on_line (r_path r) ln (index s, r_vars r) = (db, v) \<Longrightarrow>
        P (s\<lparr>index := db, readers := A @ r\<lparr>r_vars := v, r_lines := lns\<rparr> # B\<rparr>)"
    and on_cl: "\<And>s A r B. P s \<Longrightarrow> readers s = A @ r # B \<Longrightarrow> r_lines r = [] \<Longrightarrow>
        P (s\<lparr>index := on_close (r_path r) (index s, r_vars r), readers := A @ B\<rparr>)"
  shows "P (step pre s ev)"
proof (cases ev)
  case (ScanFile path lns)
  with scan[OF P] show ?thesis by simp
next
  case (RemoveFile path)
  with remove[OF P] show ?thesis by simp
next
  case GetCompletions
  with compl[OF P] show ?thesis by simp
next
  case (Line k)
  show ?thesis
  proof (cases k s rule: line_event_cases)
    case idle
    with P Line show ?thesis by simp
  next
    case (line A r B ln lns db v)
    from on_ln[OF P line(1,3,4)] show ?thesis by (simp add: Line line(5))
  qed
next
  case (Close k)
  show ?thesis
  proof (cases k s rule: close_event_cases)
    case idle
    with P Close show ?thesis by simp
  next
    case (close A r B)
    from on_cl[OF P close(1,3)] show ?thesis by (simp add: Close close(4))
  qed
qed

lemma foldl_invariant:
  assumes P: "P s"
    and scan: "\<And>s path lns. P s \<Longrightarrow> P (scanFile path lns s)"
    and remove: "\<And>s path. P s \<Longrightarrow> P (s\<lparr>index := removeFile path (index s)\<rparr>)"
    and compl: "\<And>s. P s \<Longrightarrow> P (s\<lparr>index := snd (getCompletions pre (index s))\<rparr>)"
    and on_ln: "\<And>s A r B ln lns db v. P s \<Longrightarrow> readers s = A @ r # B \<Longrightarrow> r_lines r = ln # lns \<Longrightarrow>
        on_line (r_path r) ln (index s, r_vars r) = (db, v) \<Longrightarrow>
        P (s\<lparr>index := db, readers := A @ r\<lparr>r_vars := v, r_lines := lns\<rparr> # B\<rparr>)"
    and on_cl: "\<And>s A r B. P s \<Longrightarrow> readers s = A @ r # B \<Longrightarrow> r_lines r = [] \<Longrightarrow>
        P (s\<lparr>index := on_close (r_path r) (index s, r_vars r), readers := A @ B\<rparr>)"
  shows "P (foldl (step pre) s evs)"
  using P
proof (induction evs arbitrary: s)
  case Nil
  then show ?case by simp
next
  case (Cons ev evs)
  have "P (step pre s ev)"
    by (rule step_invariant[where P = P, OF Cons.prems scan remove compl on_ln on_cl])
  from Cons.IH[OF this] show ?case by simp
qed

lemma lines_alone:
  assumes "readers s = A @ r # B"
    and "read_lines (r_path r) (r_lines r) (index s, r_vars r) = (db, v)"
  shows "foldl (step pre) s (replicate (length (r_lines r)) (Line (length A))) =
           s\<lparr>index := db, readers := A @ r\<lparr>r_vars := v, r_lines := []\<rparr> # B\<rparr>"
  using assms
proof (induction "r_lines r" arbitrary: s r)
  case Nil
  then have "r\<lparr>r_vars := v, r_lines := []\<rparr> = r" "db = index s" by simp_all
  with Nil show ?case by simp
next
  case (Cons ln lns)
  obtain db1 v1 where o: "on_line (r_path r) ln (index s, r_vars r) = (db1, v1)"
    by (cases "on_line (r_path r) ln (index s, r_vars r)")
  let ?r1 = "r\<lparr>r_vars := v1, r_lines := lns\<rparr>"
  let ?s1 = "s\<lparr>index := db1, readers := A @ ?r1 # B\<rparr>"
  have l: "line_event (length A) s = ?s1"
    by (rule line_event_at[OF Cons.prems(1) Cons.hyps(2)[symmetric] o])
  have a: "lns = r_lines ?r1" by simp
  have b: "readers ?s1 = A @ ?r1 # B" by simp
  have c: "read_lines (r_path ?r1) (r_lines ?r1) (index ?s1, r_vars ?r1) = (db, v)"
    using Cons.prems(2) o Cons.hyps(2)[symmetric] by simp
  from Cons.hyps(1)[OF a b c] l Cons.hyps(2)[symmetric] show ?case by simp
qed

lemma run_alone:
  "foldl (step pre) s (alone (length (readers s)) path lns) =
     s\<lparr>index := scan_alone path lns (index s)\<rparr>"
proof -
  let ?r = "\<lparr>r_path = path, r_vars = scan_init, r_lines = lns\<rparr>"
  let ?s1 = "scanFile path lns s"
  obtain db v where rl: "read_lines path lns (removeFile path (index s), scan_init) = (db, v)"
    by (cases "read_lines path lns (removeFile path (index s), scan_init)")
  have d: "readers ?s1 = readers s @ ?r # []" by (simp add: scanFile_def)
  have rl': "read_lines (r_path ?r) (r_lines ?r) (index ?s1, r_vars ?r) = (db, v)"
    using rl by (simp add: scanFile_def)
  let ?s2 = "?s1\<lparr>index := db, readers := readers s @ ?r\<lparr>r_vars := v, r_lines := []\<rparr> # []\<rparr>"
  have 1: "foldl (step pre) ?s1 (replicate (length lns) (Line (length (readers s)))) = ?s2"
    using lines_alone[OF d rl', of pre] by simp
  have "foldl (step pre) s (alone (length (readers s)) path lns) =
      close_event (length (readers s)) ?s2"
    by (simp add: alone_def 1)
  also have "\<dots> = s\<lparr>index := scan_alone path lns (index s)\<rparr>"
    by (simp add: close_event_def Let_def scan_alone_def rl scanFile_def)
  finally show ?thesis .
qed

lemma serial_invariant:
  assumes "P (index s)" "readers s = []"
    and "\<And>db path lns. P db \<Longrightarrow> P (scan_alone path lns db)"
    and "\<And>db path. P db \<Longrightarrow> P (removeFile path db)"
    and "\<And>db. P db \<Longrightarrow> P (snd (getCompletions pre db))"
  shows "P (index (foldl (step pre) s (serial cs))) \<and> readers (foldl (step pre) s (serial cs)) = []"
  using assms(1,2)
proof (induction cs arbitrary: s rule: serial.induct)
  case 1
  then show ?case by simp
next
  case (2 path lns cs)
  let ?s1 = "s\<lparr>index := scan_alone path lns (index s)\<rparr>"
  have "foldl (step pre) s (alone 0 path lns) = ?s1"
    using run_alone[of pre s path lns] 2(3) by simp
  moreover have "P (index ?s1)" "readers ?s1 = []" using 2(2,3) assms(3) by simp_all
  ultimately show ?case using 2(1)[of ?s1] by simp
next
  case (3 path cs)
  let ?s1 = "s\<lparr>index := removeFile path (index s)\<rparr>"
  have "P (index ?s1)" "readers ?s1 = []" using 3(2,3) assms(4) by simp_all
  then show ?case using 3(1)[of ?s1] by simp
next
  case (4 cs)
  let ?s1 = "s\<lparr>index := snd (getCompletions pre (index s))\<rparr>"
  have "P (index ?s1)" "readers ?s1 = []" using 4(2,3) assms(5) by simp_all
  then show ?case using 4(1)[of ?s1] by simp
qed

lemma serial_append:
  "serial (cs @ ds) = serial cs @ serial ds"
  by (induction cs rule: serial.induct) simp_all

subsection \<open>What every run preserves\<close>









lemma imports_on_close [simp]: "imports (on_close path (db, v)) = imports db"
  by (simp add: on_close_def)










lemma coherent_cong:
  "imports db' = imports db \<Longrightarrow> completions db' = completions db \<Longrightarrow>
   coherent pre db' = coherent pre db"
  by (simp add: coherent_def generate_cong[of db' db])

lemma coherent_unset: "completions db = None \<Longrightarrow> coherent pre db"
  by (simp add: coherent_def)

lemma coherent_after_getCompletions: "coherent pre db \<Longrightarrow> coherent pre (snd (getCompletions pre db))"
  by (rule coherent_getCompletions)

lemma cache_sound_remove:
  assumes "cache_sound pre s"
  shows "cache_sound pre (s\<lparr>index := removeFile path (index s)\<rparr>)"
  using assms coherent_removeFile[of pre "index s" path] by (simp add: cache_sound_def)

lemma cache_sound_scan:
  assumes "cache_sound pre s"
  shows "cache_sound pre (scanFile path lns s)"
  using assms coherent_removeFile[of pre "index s" path]
  by (simp add: cache_sound_def scanFile_def)

lemma cache_sound_compl:
  assumes "cache_sound pre s"
  shows "cache_sound pre (s\<lparr>index := snd (getCompletions pre (index s))\<rparr>)"
  using assms coherent_getCompletions[of pre "index s"] by (simp add: cache_sound_def)

lemma completions_on_close:
  "completions (on_close path (db, v)) = (if found v \<noteq> [] then None else completions db)"
  by (simp add: on_close_def)

lemma cache_sound_close:
  assumes "cache_sound pre s" "readers s = A @ r # B" "r_lines r = []"
  shows "cache_sound pre (s\<lparr>index := on_close (r_path r) (index s, r_vars r), readers := A @ B\<rparr>)"
proof (cases "found (r_vars r) = []")
  case True
  then have "on_close (r_path r) (index s, r_vars r) = index s" by (simp add: on_close_def)
  with assms(1) True show ?thesis by (simp add: cache_sound_def assms(2))
next
  case False
  then have "coherent pre (on_close (r_path r) (index s, r_vars r))"
    by (intro coherent_unset) (simp add: completions_on_close)
  then show ?thesis by (simp add: cache_sound_def)
qed

lemma cache_sound_line:
  assumes "cache_sound pre s" "readers s = A @ r # B" "r_lines r = ln # lns"
    "on_line (r_path r) ln (index s, r_vars r) = (db, v)"
  shows "cache_sound pre (s\<lparr>index := db, readers := A @ r\<lparr>r_vars := v, r_lines := lns\<rparr> # B\<rparr>)"
proof -
  have same: ?thesis if "db = index s" "found v = found (r_vars r)"
    using assms(1) that by (simp add: cache_sound_def assms(2))
  from assms(4) show ?thesis
  proof (cases rule: on_line_cases)
    case (decl m)
    then show ?thesis by (intro same) simp_all
  next
    case idle
    then show ?thesis by (intro same) simp_all
  next
    case (add b)
    then have "found v \<noteq> []" by simp
    then show ?thesis by (simp add: cache_sound_def)
  qed
qed

lemma cache_sound_new: "cache_sound pre newServer"
  by (simp add: cache_sound_def newServer_def newImportDB_def coherent_def)

lemma cache_sound_run: "cache_sound pre (run pre evs)"
  unfolding run_def
  by (rule foldl_invariant[where P = "cache_sound pre", OF cache_sound_new cache_sound_scan
        cache_sound_remove cache_sound_compl cache_sound_line cache_sound_close])

lemma clean_remove:
  assumes "clean s"
  shows "clean (s\<lparr>index := removeFile path (index s)\<rparr>)"
  using assms removeFile_keys[of path "index s"] by (auto simp: clean_def)

lemma clean_scan:
  assumes "clean s"
  shows "clean (scanFile path lns s)"
  using assms removeFile_keys[of path "index s"]
  by (auto simp: clean_def scanFile_def scan_init_def)

lemma clean_compl:
  assumes "clean s"
  shows "clean (s\<lparr>index := snd (getCompletions pre (index s))\<rparr>)"
  using assms getCompletions_frame[of pre "index s"] by (simp add: clean_def)

lemma clean_close:
  assumes "clean s" "readers s = A @ r # B" "r_lines r = []"
  shows "clean (s\<lparr>index := on_close (r_path r) (index s, r_vars r), readers := A @ B\<rparr>)"
  using assms(1) by (auto simp: clean_def assms(2))

lemma clean_line:
  assumes "clean s" "readers s = A @ r # B" "r_lines r = ln # lns"
    "on_line (r_path r) ln (index s, r_vars r) = (db, v)"
  shows "clean (s\<lparr>index := db, readers := A @ r\<lparr>r_vars := v, r_lines := lns\<rparr> # B\<rparr>)"
proof -
  from assms(1) have a: "\<not> blacklisted (cur_namespace (r_vars r))"
    and b: "\<forall>n. Map_has (imports (index s)) n \<longrightarrow> \<not> blacklisted n"
    and c: "\<And>r'. r' \<in> set (A @ B) \<Longrightarrow> \<not> blacklisted (cur_namespace (r_vars r'))"
    by (auto simp: clean_def assms(2))
  from on_line_clean[OF assms(4) a b]
  have "\<not> blacklisted (cur_namespace v)" "\<forall>n. Map_has (imports db) n \<longrightarrow> \<not> blacklisted n"
    by simp_all
  with c show ?thesis by (auto simp: clean_def)
qed

lemma clean_new: "clean newServer"
  by (simp add: clean_def newServer_def newImportDB_def Map_has_def)

lemma clean_run: "clean (run pre evs)"
  unfolding run_def
  by (rule foldl_invariant[where P = clean, OF clean_new clean_scan
        clean_remove clean_compl clean_line clean_close])


lemma serial_run:
  assumes "P newImportDB"
    and "\<And>db path lns. P db \<Longrightarrow> P (scan_alone path lns db)"
    and "\<And>db path. P db \<Longrightarrow> P (removeFile path db)"
    and "\<And>db. P db \<Longrightarrow> P (snd (getCompletions pre db))"
  shows "P (index (run pre (serial cs)))" and "readers (run pre (serial cs)) = []"
  using serial_invariant[where P = P and s = newServer and pre = pre and cs = cs] assms
  by (simp_all add: run_def newServer_def)


lemma run_append: "run pre (evs @ evs') = foldl (step pre) (run pre evs) evs'"
  by (simp add: run_def)

lemma run_serial_scan:
  "run pre (serial (cs @ [Scan path lns])) =
     (run pre (serial cs))\<lparr>index := scan_alone path lns (index (run pre (serial cs)))\<rparr>"
proof -
  have r: "readers (run pre (serial cs)) = []"
    by (rule serial_run(2)[where P = "\<lambda>_. True"]) simp_all
  show ?thesis
    using run_alone[of pre "run pre (serial cs)" path lns]
    by (simp add: serial_append run_append r)
qed

lemma run_serial_remove:
  "run pre (serial (cs @ [Remove path])) =
     (run pre (serial cs))\<lparr>index := removeFile path (index (run pre (serial cs)))\<rparr>"
  by (simp add: serial_append run_append)

subsection \<open>Runs in which no two scans of one path overlap\<close>












subsection \<open>The rows of the reverse map\<close>

text \<open>
  The cache is not unset unconditionally: after one file is scanned and the completions
  are requested, removing a path that was never indexed leaves the cache populated.
\<close>

theorem C3_counterexample:
  "completions
     (removeFile ''b.d.ts''
        (index (run [] (serial [Scan ''a.d.ts'' button_lines, Completions]))))
   \<noteq> None"
  by code_simp

text \<open>An index built from two files, one of them removed.\<close>

lemma two_files_eval:
  "two_files =
    \<lparr>imports =
       [(''goog.dom'', \<lparr>name = ''dom'', namespace = ''goog.dom'', module = True,
                        sourcepath = ''a.d.ts''\<rparr>),
        (''goog.ui.Button'', \<lparr>name = ''Button'', namespace = ''goog.ui.Button'',
                        module = False, sourcepath = ''b.d.ts''\<rparr>)],
     files = [(''a.d.ts'', [''goog.dom'']), (''b.d.ts'', [''goog.ui.Button''])],
     workspace = None, completions = None\<rparr>"
  by code_simp

theorem C10_witness:
  "Map_get (imports (removeFile ''a.d.ts'' two_files)) ''goog.ui.Button'' =
     Some \<lparr>name = ''Button'', namespace = ''goog.ui.Button'', module = False,
           sourcepath = ''b.d.ts''\<rparr> \<and>
   Map_get (files (removeFile ''a.d.ts'' two_files)) ''b.d.ts'' = Some [''goog.ui.Button'']"
proof -
  have h: "\<forall>n\<in>set (namespacesOf two_files ''a.d.ts'').
             \<forall>i. Map_get (imports two_files) n = Some i \<longrightarrow> sourcepath i = ''a.d.ts''"
    by (simp add: two_files_eval namespacesOf_def Map_get_def)
  have b: "Map_get (imports two_files) ''goog.ui.Button'' =
             Some \<lparr>name = ''Button'', namespace = ''goog.ui.Button'', module = False,
                   sourcepath = ''b.d.ts''\<rparr>"
    by (simp add: two_files_eval Map_get_def)
  have f: "Map_get (files two_files) ''b.d.ts'' = Some [''goog.ui.Button'']"
    by (simp add: two_files_eval Map_get_def)
  note fr = C10_removeFile_frame[OF h]
  have 1: "Map_get (imports (removeFile ''a.d.ts'' two_files)) ''goog.ui.Button'' =
     Some \<lparr>name = ''Button'', namespace = ''goog.ui.Button'', module = False,
           sourcepath = ''b.d.ts''\<rparr>"
    using fr[THEN conjunct2, THEN conjunct1, rule_format, of "''goog.ui.Button''"
        "\<lparr>name = ''Button'', namespace = ''goog.ui.Button'', module = False,
           sourcepath = ''b.d.ts''\<rparr>"] b
    by simp
  have 2: "Map_get (files (removeFile ''a.d.ts'' two_files)) ''b.d.ts'' = Some [''goog.ui.Button'']"
    using fr[THEN conjunct2, THEN conjunct2, THEN conjunct1, rule_format, of "''b.d.ts''"] f
    by simp
  from 1 2 show ?thesis by (rule conjI)
qed




subsection \<open>Ownership\<close>









subsection \<open>The completions and their cache\<close>

text \<open>
  Claim C5, as the code has it. In every state the server reaches in which no open reader
  has found a namespace (so in every state with no open reader), and in every state
  with the cache unset, \<open>getCompletions\<close> returns one item for each record of the index, in
  order, followed by the items of the fallback table exactly when the index has no entry
  for \<open>goog.ui.Component\<close>. The single text edit of the item of a record inserts, at line
  0 and column 0, the text \<open>import\<close>, then \<open>* as\<close> when \<open>module\<close> is true, then the name,
  \<open>from 'goog:\<close>, the namespace, and the closing quote, semicolon and newline.
\<close>

theorem C5_completions:
  "((\<forall>r\<in>set (readers (run pre evs)). found (r_vars r) = []) \<longrightarrow>
      fst (getCompletions pre (index (run pre evs))) =
        map completionItem
          (Map_values (imports (index (run pre evs))) @
           (if Map_has (imports (index (run pre evs))) ''goog.ui.Component'' then [] else pre))) \<and>
   (completions db = None \<longrightarrow>
      fst (getCompletions pre db) =
        map completionItem
          (Map_values (imports db) @
           (if Map_has (imports db) ''goog.ui.Component'' then [] else pre))) \<and>
   additionalTextEdits (completionItem i) =
     [\<lparr>edit_range = \<lparr>range_start = \<lparr>line = 0, character = 0\<rparr>,
                     range_end = \<lparr>line = 0, character = 0\<rparr>\<rparr>,
       newText = ''import '' @ (if module i then ''* as '' else '''') @ name i @
                 '' from 'goog:'' @ namespace i @ ''';\<newline>''\<rparr>]"
proof (intro conjI impI)
  assume "\<forall>r\<in>set (readers (run pre evs)). found (r_vars r) = []"
  with cache_sound_run[of pre evs] have "coherent pre (index (run pre evs))"
    by (simp add: cache_sound_def)
  from getCompletions_coherent[OF this]
  show "fst (getCompletions pre (index (run pre evs))) =
        map completionItem
          (Map_values (imports (index (run pre evs))) @
           (if Map_has (imports (index (run pre evs))) ''goog.ui.Component'' then [] else pre))"
    by (simp add: generate_map)
next
  assume "completions db = None"
  then show "fst (getCompletions pre db) =
        map completionItem
          (Map_values (imports db) @
           (if Map_has (imports db) ''goog.ui.Component'' then [] else pre))"
    by (simp add: getCompletions_miss generate_map)
next
  show "additionalTextEdits (completionItem i) =
     [\<lparr>edit_range = \<lparr>range_start = \<lparr>line = 0, character = 0\<rparr>,
                     range_end = \<lparr>line = 0, character = 0\<rparr>\<rparr>,
       newText = ''import '' @ (if module i then ''* as '' else '''') @ name i @
                 '' from 'goog:'' @ namespace i @ ''';\<newline>''\<rparr>]"
    by (simp add: completionItem_def Let_def TextEdit_insert_def Position_create_def)
qed

text \<open>
  With the cache populated, the lines of a scan add \<open>goog.dom\<close> to the index; until the
  reader closes, \<open>getCompletions\<close> still returns the list cached before, which has no item
  for \<open>goog.dom\<close>.
\<close>

theorem C5_counterexample:
  "fst (getCompletions []
          (index (run [] [GetCompletions, ScanFile ''a.d.ts'' dom_lines, Line 0, Line 0, Line 0])))
   \<noteq>
   map completionItem
     (Map_values
        (imports (index (run [] [GetCompletions, ScanFile ''a.d.ts'' dom_lines,
                                 Line 0, Line 0, Line 0]))) @
      (if Map_has
            (imports (index (run [] [GetCompletions, ScanFile ''a.d.ts'' dom_lines,
                                     Line 0, Line 0, Line 0])))
            ''goog.ui.Component''
       then [] else []))"
proof -
  let ?db = "index (run [] [GetCompletions, ScanFile ''a.d.ts'' dom_lines, Line 0, Line 0, Line 0])"
  have a: "fst (getCompletions [] ?db) = []" by code_simp
  have b: "imports ?db = [(''goog.dom'', \<lparr>name = ''dom'', namespace = ''goog.dom'',
              module = True, sourcepath = ''a.d.ts''\<rparr>)]" by code_simp
  show ?thesis by (simp only: a b) (simp add: Map_values_def)
qed

text \<open>
  The example of an index that holds \<open>goog.ui.Component\<close> only: one item, and the
  fallback table is not appended.
\<close>

theorem C5_witness:
  "map (\<lambda>c. map newText (additionalTextEdits c))
     (fst (getCompletions [\<lparr>name = ''dom'', namespace = ''goog.dom'', module = True, sourcepath = ''''\<rparr>]
            (index (run [\<lparr>name = ''dom'', namespace = ''goog.dom'', module = True, sourcepath = ''''\<rparr>]
                 (serial [Scan ''c.d.ts'' component_lines]))))) =
   [[''import Component from 'goog:goog.ui.Component';\<newline>'']]"
proof -
  let ?pre = "[\<lparr>name = ''dom'', namespace = ''goog.dom'', module = True, sourcepath = ''''\<rparr>]"
  let ?evs = "serial [Scan ''c.d.ts'' component_lines]"
  have e: "imports (index (run ?pre ?evs)) =
     [(''goog.ui.Component'', \<lparr>name = ''Component'', namespace = ''goog.ui.Component'',
         module = False, sourcepath = ''c.d.ts''\<rparr>)]"
    by code_simp
  have r: "readers (run ?pre ?evs) = []" by code_simp
  then have h: "\<forall>r\<in>set (readers (run ?pre ?evs)). found (r_vars r) = []" by simp
  from C5_completions[of ?pre ?evs, THEN conjunct1] h
  have "fst (getCompletions ?pre (index (run ?pre ?evs))) =
        map completionItem
          (Map_values (imports (index (run ?pre ?evs))) @
           (if Map_has (imports (index (run ?pre ?evs))) ''goog.ui.Component'' then [] else ?pre))"
    by blast
  then have "fst (getCompletions ?pre (index (run ?pre ?evs))) =
      [completionItem \<lparr>name = ''Component'', namespace = ''goog.ui.Component'',
         module = False, sourcepath = ''c.d.ts''\<rparr>]"
    by (simp only: e) (simp add: Map_values_def Map_has_def)
  then show ?thesis
    by (simp only:) (simp add: completionItem_def Let_def TextEdit_insert_def Position_create_def)
qed

lemma completions_on_line: "completions (fst (on_line path ln (db, v))) = completions db"
proof -
  obtain db' v' where o: "on_line path ln (db, v) = (db', v')"
    by (cases "on_line path ln (db, v)")
  from on_line_imports[OF o] show ?thesis by (auto simp: o)
qed

text \<open>
  Claim C8, as the code has it. When the cache is populated \<open>getCompletions\<close> returns the
  cached list and the state unchanged, so a second call right after a first returns the
  same list and state as the first. The \<open>line\<close> callback, which adds the entries, leaves
  the cache as it is; the \<open>close\<close> callback of a reader that has found a namespace unsets
  it, and the next \<open>getCompletions\<close> rebuilds the list from the index and stores it. So a
  scan that nothing interrupts and that puts a new namespace into the index leaves the
  cache unset.
\<close>

theorem C8_cache_behaviour:
  "(\<forall>c. completions db = Some c \<longrightarrow> getCompletions pre db = (c, db)) \<and>
   getCompletions pre (snd (getCompletions pre db)) = getCompletions pre db \<and>
   completions (fst (on_line path ln (db, v))) = completions db \<and>
   (found v \<noteq> [] \<longrightarrow>
      completions (on_close path (db, v)) = None \<and>
      getCompletions pre (on_close path (db, v)) =
        (generate pre (on_close path (db, v)),
         (on_close path (db, v))\<lparr>completions := Some (generate pre (on_close path (db, v)))\<rparr>)) \<and>
   (\<forall>n. Map_has (imports (index (foldl (step pre) s (alone (length (readers s)) path lns)))) n \<and>
        \<not> Map_has (imports (index s)) n \<longrightarrow>
      completions (index (foldl (step pre) s (alone (length (readers s)) path lns))) = None \<and>
      getCompletions pre (index (foldl (step pre) s (alone (length (readers s)) path lns))) =
        (generate pre (index (foldl (step pre) s (alone (length (readers s)) path lns))),
         (index (foldl (step pre) s (alone (length (readers s)) path lns)))
           \<lparr>completions :=
              Some (generate pre (index (foldl (step pre) s (alone (length (readers s)) path lns))))\<rparr>))"
proof (intro conjI allI impI)
  fix c assume "completions db = Some c"
  then show "getCompletions pre db = (c, db)" by (rule getCompletions_hit)
next
  show "getCompletions pre (snd (getCompletions pre db)) = getCompletions pre db"
    by (rule getCompletions_twice)
next
  show "completions (fst (on_line path ln (db, v))) = completions db"
    by (rule completions_on_line)
next
  assume f: "found v \<noteq> []"
  then show 1: "completions (on_close path (db, v)) = None" by (simp add: completions_on_close)
  from getCompletions_miss[OF 1]
  show "getCompletions pre (on_close path (db, v)) =
        (generate pre (on_close path (db, v)),
         (on_close path (db, v))\<lparr>completions := Some (generate pre (on_close path (db, v)))\<rparr>)" .
next
  fix n
  let ?db' = "index (foldl (step pre) s (alone (length (readers s)) path lns))"
  assume a: "Map_has (imports ?db') n \<and> \<not> Map_has (imports (index s)) n"
  have e: "?db' = scan_alone path lns (index s)" by (simp add: run_alone)
  from a have "Map_has (imports (scan_alone path lns (index s))) n" "\<not> Map_has (imports (index s)) n"
    by (simp_all add: e)
  from scan_alone_adds_unsets[OF this] show 2: "completions ?db' = None" by (simp add: e)
  from getCompletions_miss[OF 2]
  show "getCompletions pre ?db' = (generate pre ?db', ?db'\<lparr>completions := Some (generate pre ?db')\<rparr>)" .
qed

text \<open>
  Between the line that adds \<open>goog.dom\<close> and the close of the reader the cache is still
  populated, and the next call returns the list of the call before the scan.
\<close>

theorem C8_counterexample:
  "\<not> Map_has (imports (index (run [] [GetCompletions, ScanFile ''a.d.ts'' dom_lines]))) ''goog.dom'' \<and>
   Map_has (imports (index (run [] [GetCompletions, ScanFile ''a.d.ts'' dom_lines,
                                     Line 0, Line 0, Line 0]))) ''goog.dom'' \<and>
   completions (index (run [] [GetCompletions, ScanFile ''a.d.ts'' dom_lines,
                               Line 0, Line 0, Line 0])) \<noteq> None \<and>
   fst (getCompletions [] (index (run [] [GetCompletions, ScanFile ''a.d.ts'' dom_lines,
                                          Line 0, Line 0, Line 0]))) =
   fst (getCompletions [] (index (run [] [GetCompletions])))"
  by code_simp

text \<open>A populated cache, unset by a scan of \<open>b.d.ts\<close> that runs to its close.\<close>

theorem C8_witness:
  "completions (index (run [] [GetCompletions])) = Some [] \<and>
   completions (index (foldl (step []) (run [] [GetCompletions]) (alone 0 ''b.d.ts'' dom_lines))) = None"
proof -
  let ?s = "run [] [GetCompletions]"
  have r: "length (readers ?s) = 0" by code_simp
  have c: "completions (index ?s) = Some []" by code_simp
  have a: "Map_has (imports (index (foldl (step []) ?s (alone 0 ''b.d.ts'' dom_lines)))) ''goog.dom''"
    by code_simp
  have b: "\<not> Map_has (imports (index ?s)) ''goog.dom''" by code_simp
  from C8_cache_behaviour[where pre = "[]" and s = ?s and path = "''b.d.ts''" and lns = dom_lines,
      THEN conjunct2, THEN conjunct2, THEN conjunct2, THEN conjunct2, rule_format, of "''goog.dom''"]
    a b r
  have "completions (index (foldl (step []) ?s (alone 0 ''b.d.ts'' dom_lines))) = None"
    by simp
  with c show ?thesis by (rule conjI)
qed

subsection \<open>Rescans and the filter policy\<close>

lemma alone_twice:
  "foldl (step pre) s (alone (length (readers s)) p lns @ alone (length (readers s)) p lns) =
     s\<lparr>index := scan_alone p lns (scan_alone p lns (index s))\<rparr>"
proof -
  let ?s1 = "s\<lparr>index := scan_alone p lns (index s)\<rparr>"
  have "foldl (step pre) ?s1 (alone (length (readers ?s1)) p lns) =
          ?s1\<lparr>index := scan_alone p lns (index ?s1)\<rparr>"
    by (rule run_alone)
  then show ?thesis by (simp add: run_alone)
qed

text \<open>
  Claim C6, as the code has it. A scan of \<open>p\<close> that nothing interrupts removes the
  entries of \<open>p\<close> and then adds every namespace the lines declare that no entry holds at
  that moment: the namespaces the row of \<open>p\<close> lists afterwards are the declared ones
  that it listed before the call or that were in no entry. The set is the one before the
  call when the row of \<open>p\<close> lists declared namespaces only and every declared namespace is in
  the index; this is so for the second of two such scans of \<open>p\<close> with the same lines, one
  right after the other.
\<close>

theorem C6_rescan:
  "set (namespacesOf (index (foldl (step pre) s (alone (length (readers s)) p lns))) p) =
     {n. declares p lns n \<and>
         (n \<in> set (namespacesOf (index s) p) \<or> \<not> Map_has (imports (index s)) n)} \<and>
   ((\<forall>n\<in>set (namespacesOf (index s) p). declares p lns n) \<and>
    (\<forall>n. declares p lns n \<longrightarrow> Map_has (imports (index s)) n) \<longrightarrow>
      set (namespacesOf (index (foldl (step pre) s (alone (length (readers s)) p lns))) p) =
        set (namespacesOf (index s) p)) \<and>
   set (namespacesOf
          (index (foldl (step pre) s
             (alone (length (readers s)) p lns @ alone (length (readers s)) p lns))) p) =
     set (namespacesOf (index (foldl (step pre) s (alone (length (readers s)) p lns))) p)"
proof (intro conjI impI)
  show "set (namespacesOf (index (foldl (step pre) s (alone (length (readers s)) p lns))) p) =
     {n. declares p lns n \<and>
         (n \<in> set (namespacesOf (index s) p) \<or> \<not> Map_has (imports (index s)) n)}"
    by (simp add: run_alone set_namespacesOf_scan_alone)
next
  assume "(\<forall>n\<in>set (namespacesOf (index s) p). declares p lns n) \<and>
    (\<forall>n. declares p lns n \<longrightarrow> Map_has (imports (index s)) n)"
  then have "{n. declares p lns n \<and>
         (n \<in> set (namespacesOf (index s) p) \<or> \<not> Map_has (imports (index s)) n)} =
      set (namespacesOf (index s) p)"
    by blast
  then show "set (namespacesOf (index (foldl (step pre) s (alone (length (readers s)) p lns))) p) =
        set (namespacesOf (index s) p)"
    by (simp add: run_alone set_namespacesOf_scan_alone)
next
  have 1: "\<And>n. declares p lns n \<Longrightarrow> Map_has (imports (scan_alone p lns (index s))) n"
    by (rule declares_scan_alone)
  have 2: "\<And>n. n \<in> set (namespacesOf (scan_alone p lns (index s)) p) \<Longrightarrow> declares p lns n"
    unfolding set_namespacesOf_scan_alone[of p lns "index s"] by simp
  have "set (namespacesOf (scan_alone p lns (scan_alone p lns (index s))) p) =
     set (namespacesOf (scan_alone p lns (index s)) p)"
    using 1 2 unfolding set_namespacesOf_scan_alone[of p lns "scan_alone p lns (index s)"] by blast
  then show "set (namespacesOf
          (index (foldl (step pre) s
             (alone (length (readers s)) p lns @ alone (length (readers s)) p lns))) p) =
     set (namespacesOf (index (foldl (step pre) s (alone (length (readers s)) p lns))) p)"
    by (simp only: alone_twice run_alone) simp
qed

text \<open>
  The set can grow, also when every scan runs to its close: \<open>b.d.ts\<close> claims \<open>goog.dom\<close>
  first, \<open>a.d.ts\<close> declares \<open>goog.dom\<close> and \<open>goog.ui.Button\<close> and gets the second only;
  once \<open>b.d.ts\<close> is removed, scanning \<open>a.d.ts\<close> again with the same lines gives it both.
\<close>

theorem C6_counterexample:
  "Map_has (files (index (run [] (serial [Scan ''b.d.ts'' dom_lines, Scan ''a.d.ts'' dom_button_lines,
                           Remove ''b.d.ts''])))) ''a.d.ts'' \<and>
   set (namespacesOf
          (index (run [] (serial [Scan ''b.d.ts'' dom_lines, Scan ''a.d.ts'' dom_button_lines,
                      Remove ''b.d.ts'', Scan ''a.d.ts'' dom_button_lines])))
          ''a.d.ts'') \<noteq>
   set (namespacesOf
          (index (run [] (serial [Scan ''b.d.ts'' dom_lines, Scan ''a.d.ts'' dom_button_lines,
                   Remove ''b.d.ts''])))
          ''a.d.ts'')"
proof -
  let ?cs = "[Scan ''b.d.ts'' dom_lines, Scan ''a.d.ts'' dom_button_lines, Remove ''b.d.ts'']"
  let ?cs' = "[Scan ''b.d.ts'' dom_lines, Scan ''a.d.ts'' dom_button_lines, Remove ''b.d.ts'',
               Scan ''a.d.ts'' dom_button_lines]"
  have a: "Map_has (files (index (run [] (serial ?cs)))) ''a.d.ts''" by code_simp
  have b: "namespacesOf (index (run [] (serial ?cs))) ''a.d.ts'' = [''goog.ui.Button'']"
    by code_simp
  have c: "namespacesOf (index (run [] (serial ?cs'))) ''a.d.ts'' =
            [''goog.dom'', ''goog.ui.Button'']" by code_simp
  have "set (namespacesOf (index (run [] (serial ?cs'))) ''a.d.ts'') \<noteq>
        set (namespacesOf (index (run [] (serial ?cs))) ''a.d.ts'')"
    by (simp only: b c) simp
  with a show ?thesis by (rule conjI)
qed

theorem C6_witness:
  "set (namespacesOf
          (index (foldl (step []) (run [] (serial [Scan ''a.d.ts'' dom_lines]))
              (alone 0 ''a.d.ts'' dom_lines))) ''a.d.ts'') =
   set (namespacesOf (index (run [] (serial [Scan ''a.d.ts'' dom_lines]))) ''a.d.ts'') \<and>
   namespacesOf (index (run [] (serial [Scan ''a.d.ts'' dom_lines]))) ''a.d.ts'' = [''goog.dom'']"
proof -
  let ?s = "run [] (serial [Scan ''a.d.ts'' dom_lines])"
  have e: "index ?s = \<lparr>imports = [(''goog.dom'', \<lparr>name = ''dom'', namespace = ''goog.dom'',
                      module = True, sourcepath = ''a.d.ts''\<rparr>)],
                  files = [(''a.d.ts'', [''goog.dom''])], workspace = None, completions = None\<rparr>"
    by code_simp
  have l: "length (readers ?s) = 0" by code_simp
  have i: "imports (fst (read_lines ''a.d.ts'' dom_lines (newImportDB, scan_init))) =
     [(''goog.dom'', \<lparr>name = ''dom'', namespace = ''goog.dom'',
                      module = True, sourcepath = ''a.d.ts''\<rparr>)]"
    by code_simp
  have d: "declares ''a.d.ts'' dom_lines n = (n = ''goog.dom'')" for n
    by (simp only: declares_def i) (auto simp: Map_has_def)
  have r: "namespacesOf (index ?s) ''a.d.ts'' = [''goog.dom'']"
    by (simp only: e) (simp add: namespacesOf_def Map_get_def)
  have h1: "\<forall>n\<in>set (namespacesOf (index ?s) ''a.d.ts''). declares ''a.d.ts'' dom_lines n"
    by (simp only: r d) simp
  have h2: "\<forall>n. declares ''a.d.ts'' dom_lines n \<longrightarrow> Map_has (imports (index ?s)) n"
    by (simp only: e d) (simp add: Map_has_def)
  from C6_rescan[where pre = "[]" and s = ?s and p = "''a.d.ts''" and lns = dom_lines,
      THEN conjunct2, THEN conjunct1] h1 h2
  have "set (namespacesOf (index (foldl (step []) ?s (alone (length (readers ?s)) ''a.d.ts'' dom_lines)))
           ''a.d.ts'') = set (namespacesOf (index ?s) ''a.d.ts'')"
    by blast
  then have "set (namespacesOf (index (foldl (step []) ?s (alone 0 ''a.d.ts'' dom_lines)))
           ''a.d.ts'') = set (namespacesOf (index ?s) ''a.d.ts'')"
    by (simp only: l)
  from this r show ?thesis by (rule conjI)
qed

lemma blacklisted_run: "blacklisted n \<Longrightarrow> \<not> Map_has (imports (index (run pre evs))) n"
  using clean_run[of pre evs] by (auto simp: clean_def)

text \<open>
  Claim C7. A namespace that starts with a blacklisted prefix is in no index the server
  reaches, whatever the order of the calls and of the reader events. A declaration of it
  ends with no active namespace and with the skip prefix either kept as it was (when the
  declaration continued an armed skip-run) or cleared, never newly armed; the lines that
  follow and are not declarations change nothing. In particular
  \<open>goog.i18n.DateTimeSymbols.foo\<close> is never an entry.
\<close>

theorem C7_blacklist:
  "(blacklisted ns \<longrightarrow>
      \<not> Map_has (imports (index (run pre evs))) ns \<and>
      on_declare ns v =
        (if skip v \<noteq> [] \<and> startsWith ns (skip v) then v\<lparr>cur_namespace := []\<rparr>
         else v\<lparr>cur_namespace := [], skip := []\<rparr>) \<and>
      (matchDeclare ln = None \<longrightarrow>
         on_line path ln (db, on_declare ns v) = (db, on_declare ns v))) \<and>
   \<not> Map_has (imports (index (run pre evs))) ''goog.i18n.DateTimeSymbols.foo''"
proof (intro conjI impI)
  assume b: "blacklisted ns"
  then show "\<not> Map_has (imports (index (run pre evs))) ns" by (rule blacklisted_run)
  from b show "on_declare ns v =
        (if skip v \<noteq> [] \<and> startsWith ns (skip v) then v\<lparr>cur_namespace := []\<rparr>
         else v\<lparr>cur_namespace := [], skip := []\<rparr>)" by (rule on_declare_blacklisted)
  assume "matchDeclare ln = None"
  with cur_namespace_on_declare_blacklisted[OF b]
  show "on_line path ln (db, on_declare ns v) = (db, on_declare ns v)"
    by (rule on_line_inactive)
next
  show "\<not> Map_has (imports (index (run pre evs))) ''goog.i18n.DateTimeSymbols.foo''"
    using blacklisted_symbols_foo by (rule blacklisted_run)
qed

theorem C7_witness:
  "blacklisted ''goog.i18n.DateTimeSymbols.foo'' \<and>
   \<not> Map_has
       (imports (index (run [] [ScanFile ''s.d.ts'' symbols_lines, ScanFile ''b.d.ts'' button_lines,
                                Line 0, Line 1, Line 0, Line 1, Line 0, Line 1, Close 1, Close 0])))
       ''goog.i18n.DateTimeSymbols.foo'' \<and>
   skip (on_declare ''goog.i18n.DateTimeSymbols.foo'' scan_init) = []"
  using C7_blacklist[of "''goog.i18n.DateTimeSymbols.foo''" "[]"
            "[ScanFile ''s.d.ts'' symbols_lines, ScanFile ''b.d.ts'' button_lines,
                                Line 0, Line 1, Line 0, Line 1, Line 0, Line 1, Close 1, Close 0]"
            scan_init]
        blacklisted_symbols_foo
  by (simp add: scan_init_def)

text \<open>
  Claim C4. The order of the checks on a declared namespace \<open>m\<close>. With a skip-run armed, a
  namespace that starts with the prefix is discarded, whatever the other tables say, and one
  that does not start with it is treated as if no skip-run were armed. With no skip-run
  armed the blacklist is consulted first, and discards; then the deprecated set, which
  discards and arms the skip-run \<open>m.\<close>; otherwise \<open>m\<close> becomes the active namespace. A
  file that declares \<open>goog.ui.TabPane\<close>, \<open>goog.ui.TabPane.Events\<close> and \<open>goog.ui.Button\<close>,
  each with an export marker, scanned into the empty index, contributes \<open>goog.ui.Button\<close>
  only.
\<close>

theorem C4_filter_order:
  "(skip v \<noteq> [] \<and> startsWith m (skip v) \<longrightarrow> on_declare m v = v\<lparr>cur_namespace := []\<rparr>) \<and>
   (skip v \<noteq> [] \<and> \<not> startsWith m (skip v) \<longrightarrow> on_declare m v = on_declare m (v\<lparr>skip := []\<rparr>)) \<and>
   (skip v = [] \<and> blacklisted m \<longrightarrow> on_declare m v = v\<lparr>cur_namespace := []\<rparr>) \<and>
   (skip v = [] \<and> \<not> blacklisted m \<and> deprecated_has m \<longrightarrow>
      on_declare m v = v\<lparr>cur_namespace := [], skip := m @ ''.''\<rparr>) \<and>
   (skip v = [] \<and> \<not> blacklisted m \<and> \<not> deprecated_has m \<longrightarrow>
      cur_namespace (on_declare m v) = m \<and> skip (on_declare m v) = []) \<and>
   (matchDeclare ln = Some m \<longrightarrow> on_line path ln (db, v) = (db, on_declare m v)) \<and>
   map fst (imports (index (run pre (alone 0 path tabpane_lines)))) = [''goog.ui.Button''] \<and>
   namespacesOf (index (run pre (alone 0 path tabpane_lines))) path = [''goog.ui.Button'']"
proof -
  have ex: "scan_alone path tabpane_lines newImportDB =
     \<lparr>imports = [(''goog.ui.Button'', \<lparr>name = ''Button'', namespace = ''goog.ui.Button'',
                     module = False, sourcepath = path\<rparr>)],
      files = [(path, [''goog.ui.Button''])], workspace = None, completions = None\<rparr>"
    by (simp add: tabpane_lines_def scan_alone_def read_lines_def removeFile_def newImportDB_def
         Map_has_def
         scan_init_def on_line_def on_close_def on_declare_def on_export_def matchAt_def
         startsWith_def lineTerminator_def blacklisted_def wildcardBlacklists_def
         deprecated_has_def deprecated_def Map_set_def Map_get_def substr_def)
  have "run pre (alone 0 path tabpane_lines) =
      newServer\<lparr>index := scan_alone path tabpane_lines (index newServer)\<rparr>"
    using run_alone[of pre newServer path tabpane_lines] by (simp add: run_def newServer_def)
  then have ix: "index (run pre (alone 0 path tabpane_lines)) =
      scan_alone path tabpane_lines newImportDB"
    by (simp add: newServer_def)
  show ?thesis
    by (simp add: ix ex namespacesOf_def Map_get_def on_declare_def Let_def on_line_declare)
qed

text \<open>
  The second declaration of the example continues the skip-run that the first one armed,
  and the third one ends it.
\<close>

theorem C4_witness:
  "on_declare ''goog.ui.TabPane'' scan_init =
     scan_init\<lparr>cur_namespace := [], skip := ''goog.ui.TabPane.''\<rparr> \<and>
   on_declare ''goog.ui.TabPane.Events'' (scan_init\<lparr>skip := ''goog.ui.TabPane.''\<rparr>) =
     scan_init\<lparr>skip := ''goog.ui.TabPane.'', cur_namespace := []\<rparr> \<and>
   on_declare ''goog.ui.Button'' (scan_init\<lparr>skip := ''goog.ui.TabPane.''\<rparr>) =
     on_declare ''goog.ui.Button'' (scan_init\<lparr>skip := ''goog.ui.TabPane.'', skip := []\<rparr>)"
proof -
  have d: "deprecated_has ''goog.ui.TabPane''"
    by (simp add: deprecated_has_def deprecated_def)
  have b: "\<not> blacklisted ''goog.ui.TabPane''"
    by (simp add: blacklisted_def wildcardBlacklists_def startsWith_def)
  have s0: "skip scan_init = []" by (simp add: scan_init_def)
  have s1: "skip (scan_init\<lparr>skip := ''goog.ui.TabPane.''\<rparr>) \<noteq> []" by simp
  have p2: "startsWith ''goog.ui.TabPane.Events'' (skip (scan_init\<lparr>skip := ''goog.ui.TabPane.''\<rparr>))"
    by (simp add: startsWith_def)
  have p3: "\<not> startsWith ''goog.ui.Button'' (skip (scan_init\<lparr>skip := ''goog.ui.TabPane.''\<rparr>))"
    by (simp add: startsWith_def)
  from C4_filter_order[of scan_init "''goog.ui.TabPane''"] d b s0
  have 1: "on_declare ''goog.ui.TabPane'' scan_init =
     scan_init\<lparr>cur_namespace := [], skip := ''goog.ui.TabPane.''\<rparr>"
    by simp
  from C4_filter_order[of "scan_init\<lparr>skip := ''goog.ui.TabPane.''\<rparr>" "''goog.ui.TabPane.Events''"]
    s1 p2
  have 2: "on_declare ''goog.ui.TabPane.Events'' (scan_init\<lparr>skip := ''goog.ui.TabPane.''\<rparr>) =
     scan_init\<lparr>skip := ''goog.ui.TabPane.'', cur_namespace := []\<rparr>"
    by blast
  from C4_filter_order[of "scan_init\<lparr>skip := ''goog.ui.TabPane.''\<rparr>" "''goog.ui.Button''"]
    s1 p3
  have 3: "on_declare ''goog.ui.Button'' (scan_init\<lparr>skip := ''goog.ui.TabPane.''\<rparr>) =
     on_declare ''goog.ui.Button'' (scan_init\<lparr>skip := ''goog.ui.TabPane.'', skip := []\<rparr>)"
    by blast
  from 1 2 3 show ?thesis by blast
qed

end
